theory Spec2Isabelle
  imports Complex_Main "HOL-Library.Word" "HOL-Library.Signed_Division"
begin

unbundle bit_operations_syntax

section \<open>Floating-point numbers\<close>

text \<open>
  The program computes with \<open>float\<close>, the binary32 format. A \<open>float\<close> value is modelled by
  the real number it stands for; the model has no infinities and no NaN.

  The additions of the program can round and are rounded in the model, by \<open>round_float\<close>:
  \<open>center += d\<close>, \<open>p + center\<close>, \<open>boundingBox.min + boundingBox.max\<close> and
  \<open>m_curTime += dt\<close>. The products \<open>2.0f * side * v\<close> and \<open>0.5f * v\<close> multiply by a power
  of two and by 1, -1 or 0: they are exact in binary32 and are real products in the model.
  The angle \<open>-1.5f * m_curTime\<close> and the aspect ratio are arguments of functions of glm,
  which are parameters of the model, and are passed on as the real product and quotient.
\<close>

text \<open>\<open>ilog2 n\<close> is the position of the leading bit of \<open>n\<close>, for \<open>n\<close> at least 1.\<close>

function ilog2 :: "int \<Rightarrow> nat" where
  "ilog2 n = (if n < 2 then 0 else Suc (ilog2 (n div 2)))"
  by pat_completeness auto
termination
  by (relation "measure nat") auto

declare ilog2.simps [simp del]

definition pow2 :: "int \<Rightarrow> real" where
  "pow2 e = (if 0 \<le> e then 2 ^ nat e else 1 / 2 ^ nat (- e))"

text \<open>The binary exponent of a real other than 0, not below the exponent -126 of the
  subnormal numbers, and the distance of two neighbouring binary32 values at that exponent
  (24 bits of precision).\<close>

definition float_exponent :: "real \<Rightarrow> int" where
  "float_exponent x =
     (if 1 \<le> \<bar>x\<bar> then int (ilog2 \<lfloor>\<bar>x\<bar>\<rfloor>)
      else max (- 126) (- int (Suc (ilog2 (\<lceil>1 / \<bar>x\<bar>\<rceil> - 1)))))"

definition float_ulp :: "real \<Rightarrow> real" where
  "float_ulp x = pow2 (float_exponent x - 23)"

text \<open>Rounding to the nearest integer, a tie to the even one.\<close>

definition round_half_even :: "real \<Rightarrow> int" where
  "round_half_even r =
     (let f = \<lfloor>r\<rfloor> in
      if r - real_of_int f < 1 / 2 then f
      else if 1 / 2 < r - real_of_int f then f + 1
      else if even f then f else f + 1)"

text \<open>
  Rounding of a real to binary32, to nearest and a tie to even, the rounding of the
  arithmetic of \<open>float\<close>. A result above \<open>FLT_MAX\<close> in magnitude stands for an infinity.
\<close>

definition round_float :: "real \<Rightarrow> real" where
  "round_float x =
     (if x = 0 then 0 else real_of_int (round_half_even (x / float_ulp x)) * float_ulp x)"

text \<open>\<open>std::numeric_limits<float>::max()\<close> and \<open>std::numeric_limits<float>::min()\<close>: the
  largest finite binary32 value and the smallest positive normal one.\<close>

definition FLT_MAX :: real where
  "FLT_MAX = 2 ^ 128 - 2 ^ 104"

definition FLT_MIN :: real where
  "FLT_MIN = 1 / 2 ^ 126"

text \<open>The sum of two \<open>float\<close> values; \<open>None\<close> stands for an infinity.\<close>

definition float_add :: "real \<Rightarrow> real \<Rightarrow> real option" where
  "float_add a b =
     (let r = round_float (a + b) in if \<bar>r\<bar> \<le> FLT_MAX then Some r else None)"

section \<open>Vectors\<close>

text \<open>
  \<open>glm::vec3\<close> and its operations, component by component. \<open>vec3_add\<close> is the sum of
  \<open>glm\<close>, in \<open>float\<close>: each component is rounded. The coordinates of this program stay
  far below \<open>FLT_MAX\<close> (a centre never grows beyond \<open>2 ^ 25\<close>), so the sum of two of them
  is finite; the only larger values are the initial corners of the bounding box, and their sum
  rounds to \<open>FLT_MAX\<close>.
\<close>

datatype vec3 = Vec3 (vx: real) (vy: real) (vz: real)

datatype vec2 = Vec2 real real

definition vec3_splat :: "real \<Rightarrow> vec3" where
  "vec3_splat s = Vec3 s s s"

definition vec3_add :: "vec3 \<Rightarrow> vec3 \<Rightarrow> vec3" where
  "vec3_add a b =
     Vec3 (round_float (vx a + vx b)) (round_float (vy a + vy b)) (round_float (vz a + vz b))"

definition vec3_scale :: "real \<Rightarrow> vec3 \<Rightarrow> vec3" where
  "vec3_scale s a = Vec3 (s * vx a) (s * vy a) (s * vz a)"

definition vec3_neg :: "vec3 \<Rightarrow> vec3" where
  "vec3_neg a = Vec3 (- vx a) (- vy a) (- vz a)"

definition vec3_min :: "vec3 \<Rightarrow> vec3 \<Rightarrow> vec3" where
  "vec3_min a b = Vec3 (min (vx a) (vx b)) (min (vy a) (vy b)) (min (vz a) (vz b))"

definition vec3_max :: "vec3 \<Rightarrow> vec3 \<Rightarrow> vec3" where
  "vec3_max a b = Vec3 (max (vx a) (vx b)) (max (vy a) (vy b)) (max (vz a) (vz b))"

section \<open>The random source\<close>

text \<open>
  \<open>initializeShape\<close> draws from a function-local static \<open>std::default_random_engine\<close>
  through \<open>uniform_int_distribution<int>(0, 1)\<close>. The sequence of values the distribution
  returns is a parameter \<open>draws\<close> (\<open>True\<close> for 1); the state of the engine is
  the number of draws made so far, and it lives on from one call to the next.
\<close>

type_synonym draws = "nat \<Rightarrow> bool"

definition zero_or_one :: "draws \<Rightarrow> nat \<Rightarrow> bool \<times> nat" where
  "zero_or_one coin g = (coin g, Suc g)"

section \<open>The walk of \<open>initializeShape\<close>\<close>

datatype failure = AssertionFailed | DivisionByZero | NullPointer | TimeNotFinite

record walk_state =
  blocks :: "vec3 list"
  center :: vec3
  direction :: "32 word"
  side :: real
  generator :: nat

text \<open>\<open>glm::vec3(direction >> 2, (direction >> 1) & 1, direction & 1)\<close>\<close>

definition direction_vec :: "32 word \<Rightarrow> vec3" where
  "direction_vec dir =
     Vec3 (real (unat (drop_bit 2 dir)))
          (real (unat (drop_bit 1 dir AND 1)))
          (real (unat (dir AND 1)))"

text \<open>\<open>for (int i = 0; i < length; ++i) { blocks.push_back(center); center += d; }\<close>\<close>

function place_blocks :: "int \<Rightarrow> int \<Rightarrow> vec3 \<Rightarrow> vec3 list \<times> vec3 \<Rightarrow> vec3 list \<times> vec3" where
  "place_blocks i len d (bs, c) =
     (if i < len then place_blocks (i + 1) len d (bs @ [c], vec3_add c d) else (bs, c))"
  by pat_completeness auto
termination
  by (relation "measure (\<lambda>(i, len, d, s). nat (len - i))") auto

declare place_blocks.simps [simp del]

text \<open>The \<open>switch (direction)\<close>; its \<open>default\<close> branch is \<open>assert(false)\<close>.\<close>

definition switch_direction :: "draws \<Rightarrow> 32 word \<Rightarrow> nat \<Rightarrow> failure + (32 word \<times> nat)" where
  "switch_direction coin dir g =
     (if dir = 1 then
        (case zero_or_one coin g of (b, g') \<Rightarrow> Inr (if b then 2 else 4, g'))
      else if dir = 2 then
        (case zero_or_one coin g of (b, g') \<Rightarrow> Inr (if b then 1 else 4, g'))
      else if dir = 4 then
        (case zero_or_one coin g of (b, g') \<Rightarrow> Inr (if b then 1 else 2, g'))
      else Inl AssertionFailed)"

text \<open>The step \<open>d = 2.0f * side * glm::vec3(...)\<close> of a segment.\<close>

definition segment_step :: "walk_state \<Rightarrow> vec3" where
  "segment_step st = vec3_scale (2 * side st) (direction_vec (direction st))"

text \<open>One iteration of \<open>for (auto length : segments)\<close>.\<close>

definition segment_body :: "draws \<Rightarrow> int \<Rightarrow> walk_state \<Rightarrow> failure + walk_state" where
  "segment_body coin len st =
     (let d = segment_step st;
          (bs, c) = place_blocks 0 len d (blocks st, center st)
      in (case switch_direction coin (direction st) (generator st) of
            Inl e \<Rightarrow> Inl e
          | Inr (dir', g1) \<Rightarrow>
              (let (flip, g2) = zero_or_one coin g1
               in Inr \<lparr>blocks = bs, center = c, direction = dir',
                       side = (if flip then - side st else side st), generator = g2\<rparr>)))"

fun segments_loop :: "draws \<Rightarrow> int list \<Rightarrow> walk_state \<Rightarrow> failure + walk_state" where
  "segments_loop coin [] st = Inr st"
| "segments_loop coin (len # rest) st =
     (case segment_body coin len st of
        Inl e \<Rightarrow> Inl e
      | Inr st' \<Rightarrow> segments_loop coin rest st')"

text \<open>The state before the first segment: \<open>center = glm::vec3(0)\<close>, \<open>direction = 2\<close>,
  \<open>side = 1\<close>.\<close>

definition initial_walk :: "nat \<Rightarrow> walk_state" where
  "initial_walk g = \<lparr>blocks = [], center = vec3_splat 0, direction = 2, side = 1, generator = g\<rparr>"

section \<open>Vertices, mesh and bounding box\<close>

record Vertex =
  position :: vec3
  texCoord :: vec2

text \<open>The lambda \<open>addFace\<close>, which pushes the two triangles of one face onto \<open>vertices\<close>.\<close>

definition addFace :: "vec3 \<Rightarrow> Vertex list \<Rightarrow> vec3 \<Rightarrow> vec3 \<Rightarrow> vec3 \<Rightarrow> vec3 \<Rightarrow> Vertex list" where
  "addFace c vertices p0 p1 p2 p3 =
     vertices @
     [\<lparr>position = vec3_add p0 c, texCoord = Vec2 0 0\<rparr>,
      \<lparr>position = vec3_add p1 c, texCoord = Vec2 0 1\<rparr>,
      \<lparr>position = vec3_add p2 c, texCoord = Vec2 1 1\<rparr>,
      \<lparr>position = vec3_add p2 c, texCoord = Vec2 1 1\<rparr>,
      \<lparr>position = vec3_add p3 c, texCoord = Vec2 1 0\<rparr>,
      \<lparr>position = vec3_add p0 c, texCoord = Vec2 0 0\<rparr>]"

text \<open>The body of \<open>for (const auto &center : blocks)\<close>: the six faces in the order top,
  bottom, right, left, back, front.\<close>

definition add_cube :: "vec3 \<Rightarrow> Vertex list \<Rightarrow> Vertex list" where
  "add_cube c vertices =
     (let v1 = addFace c vertices (Vec3 (-1) 1 (-1)) (Vec3 (-1) 1 1) (Vec3 1 1 1) (Vec3 1 1 (-1));
          v2 = addFace c v1 (Vec3 1 (-1) (-1)) (Vec3 1 (-1) 1) (Vec3 (-1) (-1) 1) (Vec3 (-1) (-1) (-1));
          v3 = addFace c v2 (Vec3 (-1) (-1) (-1)) (Vec3 (-1) (-1) 1) (Vec3 (-1) 1 1) (Vec3 (-1) 1 (-1));
          v4 = addFace c v3 (Vec3 1 1 (-1)) (Vec3 1 1 1) (Vec3 1 (-1) 1) (Vec3 1 (-1) (-1));
          v5 = addFace c v4 (Vec3 (-1) (-1) (-1)) (Vec3 (-1) 1 (-1)) (Vec3 1 1 (-1)) (Vec3 1 (-1) (-1))
      in addFace c v5 (Vec3 1 (-1) 1) (Vec3 1 1 1) (Vec3 (-1) 1 1) (Vec3 (-1) (-1) 1))"

fun cubes_loop :: "vec3 list \<Rightarrow> Vertex list \<Rightarrow> Vertex list" where
  "cubes_loop [] vertices = vertices"
| "cubes_loop (c # rest) vertices = cubes_loop rest (add_cube c vertices)"

datatype gl_enum = GL_FLOAT | GL_TRIANGLES | GL_DEPTH_TEST | GL_CULL_FACE | GL_BACK
  | GL_VERTEX_SHADER | GL_FRAGMENT_SHADER

text \<open>
  \<open>Mesh\<close> is declared in \<open>mesh.h\<close>; the model keeps what \<open>initializeShape\<close> hands to
  it. \<open>sizeof(Vertex)\<close> is 20 bytes (five floats) and \<open>texCoord\<close> sits at offset 12.
\<close>

record Mesh =
  vertexCount :: nat
  vertexSize :: nat
  vertexAttributes :: "(nat \<times> gl_enum \<times> nat) list"
  vertexData :: "Vertex list"

record BoundingBox =
  bb_min :: vec3
  bb_max :: vec3

record Shape =
  boundingBox :: BoundingBox
  mesh :: Mesh

text \<open>\<open>for (auto &vertex : vertices) { bb.min = glm::min(bb.min, p); bb.max = glm::max(bb.max, p); }\<close>\<close>

fun bounding_loop :: "Vertex list \<Rightarrow> BoundingBox \<Rightarrow> BoundingBox" where
  "bounding_loop [] bb = bb"
| "bounding_loop (vertex # rest) bb =
     bounding_loop rest
       \<lparr>bb_min = vec3_min (bb_min bb) (position vertex),
        bb_max = vec3_max (bb_max bb) (position vertex)\<rparr>"

text \<open>The vertex list and the bounding box that \<open>initializeShape\<close> builds from the blocks.\<close>

definition shape_vertices :: "vec3 list \<Rightarrow> Vertex list" where
  "shape_vertices bs = cubes_loop bs []"

definition shape_box :: "Vertex list \<Rightarrow> BoundingBox" where
  "shape_box vertices =
     bounding_loop vertices \<lparr>bb_min = vec3_splat FLT_MAX, bb_max = vec3_splat FLT_MIN\<rparr>"

text \<open>\<open>initializeShape\<close>: the walk, the vertices, the mesh and the bounding box. The second
  component of the result is the state of the static generator after the call.\<close>

definition initializeShape :: "draws \<Rightarrow> int list \<Rightarrow> nat \<Rightarrow> failure + (Shape \<times> nat)" where
  "initializeShape coin segments g =
     (case segments_loop coin segments (initial_walk g) of
        Inl e \<Rightarrow> Inl e
      | Inr st \<Rightarrow>
          (let vertices = shape_vertices (blocks st);
               m = \<lparr>vertexCount = length vertices, vertexSize = 20,
                    vertexAttributes = [(3, GL_FLOAT, 0), (2, GL_FLOAT, 12)],
                    vertexData = vertices\<rparr>;
               bb = shape_box vertices
           in Inr (\<lparr>boundingBox = bb, mesh = m\<rparr>, generator st)))"

section \<open>The shader program\<close>

text \<open>
  \<open>ShaderProgram\<close> is declared in \<open>shaderprogram.h\<close>. What \<open>addShader\<close>, \<open>link\<close> and
  \<open>log\<close> answer is a parameter of the model: a \<open>shader_driver\<close>.
\<close>

datatype shader_step = AddShader gl_enum string | Link

record shader_driver =
  addShader_ok :: "gl_enum \<Rightarrow> string \<Rightarrow> bool"
  link_ok :: bool
  log_text :: "shader_step \<Rightarrow> string"

record ShaderProgram =
  shaders :: "(gl_enum \<times> string) list"
  linked :: bool

text \<open>\<open>initializeProgram\<close> returns its result, the program and the lines written to
  \<open>stderr\<close>.\<close>

definition initializeProgram ::
    "shader_driver \<Rightarrow> string \<Rightarrow> string \<Rightarrow> bool \<times> ShaderProgram \<times> string list" where
  "initializeProgram drv vertexShader fragmentShader =
     (if \<not> addShader_ok drv GL_VERTEX_SHADER vertexShader then
        (False, \<lparr>shaders = [], linked = False\<rparr>,
         [''Failed to add vertex shader '' @ vertexShader @ '': '' @
          log_text drv (AddShader GL_VERTEX_SHADER vertexShader)])
      else if \<not> addShader_ok drv GL_FRAGMENT_SHADER fragmentShader then
        (False, \<lparr>shaders = [(GL_VERTEX_SHADER, vertexShader)], linked = False\<rparr>,
         [''Failed to add fragment shader '' @ fragmentShader @ '': '' @
          log_text drv (AddShader GL_FRAGMENT_SHADER fragmentShader)])
      else
        (True,
         \<lparr>shaders = [(GL_VERTEX_SHADER, vertexShader), (GL_FRAGMENT_SHADER, fragmentShader)],
          linked = link_ok drv\<rparr>,
         (if \<not> link_ok drv then [''Failed to link shader: '' @ log_text drv Link] else [])))"

section \<open>The demo\<close>

text \<open>
  The members of \<open>Demo\<close>, \<open>Shape\<close> and \<open>BoundingBox\<close> are declared in \<open>demo.h\<close>; the
  model takes them as \<open>demo.cc\<close> uses them, with \<open>int\<close> for the canvas size as in the
  constructor. \<open>m_shapeProgram\<close> is a \<open>unique_ptr\<close>, null until \<open>initialize\<close>.
\<close>

record Demo =
  m_canvasWidth :: int
  m_canvasHeight :: int
  m_shapes :: "Shape list"
  m_curTime :: real
  m_shapeProgram :: "ShaderProgram option"

text \<open>
  Modelled from the spec: the initial value of \<open>m_curTime\<close>. The constructor in \<open>demo.cc\<close>
  sets the canvas size only; the initialiser of \<open>m_curTime\<close> is in \<open>demo.h\<close>, and the
  specification gives it as "scalar elapsed time (initialized to 0)".
\<close>

definition Demo_new :: "int \<Rightarrow> int \<Rightarrow> Demo" where
  "Demo_new canvasWidth canvasHeight =
     \<lparr>m_canvasWidth = canvasWidth, m_canvasHeight = canvasHeight, m_shapes = [],
      m_curTime = 0, m_shapeProgram = None\<rparr>"

text \<open>\<open>for (int i = 0; i < 6; ++i) m_shapes.push_back(initializeShape(segments));\<close>\<close>

function shapes_loop ::
    "draws \<Rightarrow> int list \<Rightarrow> int \<Rightarrow> Shape list \<times> nat \<Rightarrow> failure + (Shape list \<times> nat)" where
  "shapes_loop coin segments i (shs, g) =
     (if i < 6 then
        (case initializeShape coin segments g of
           Inl e \<Rightarrow> Inl e
         | Inr (sh, g') \<Rightarrow> shapes_loop coin segments (i + 1) (shs @ [sh], g'))
      else Inr (shs, g))"
  by pat_completeness auto
termination
  by (relation "measure (\<lambda>(coin, segments, i, s). nat (6 - i))") auto

declare shapes_loop.simps [simp del]

record init_result =
  returned :: bool
  demo_after :: Demo
  stderr_lines :: "string list"
  generator_after :: nat

definition initialize :: "shader_driver \<Rightarrow> draws \<Rightarrow> nat \<Rightarrow> Demo \<Rightarrow> failure + init_result" where
  "initialize drv coin g demo =
     (case initializeProgram drv ''shaders/shape.vert'' ''shaders/shape.frag'' of
        (ok, prog, err) \<Rightarrow>
          (let demo1 = demo\<lparr>m_shapeProgram := Some prog\<rparr> in
           if \<not> ok then
             Inr \<lparr>returned = False, demo_after = demo1, stderr_lines = err, generator_after = g\<rparr>
           else
             (case shapes_loop coin [3, 3, 2, 3] 0 (m_shapes demo1, g) of
                Inl e \<Rightarrow> Inl e
              | Inr (shs, g') \<Rightarrow>
                  Inr \<lparr>returned = True, demo_after = demo1\<lparr>m_shapes := shs\<rparr>,
                       stderr_lines = err, generator_after = g'\<rparr>)))"

section \<open>Rendering\<close>

text \<open>
  The matrix functions come from the library glm, which is not part of the program: they are
  parameters of the model, over a type \<open>'m\<close> of matrices.
\<close>

record 'm glm =
  mat4 :: "real \<Rightarrow> 'm"
  mat_mul :: "'m \<Rightarrow> 'm \<Rightarrow> 'm"
  perspective :: "real \<Rightarrow> real option \<Rightarrow> real \<Rightarrow> real \<Rightarrow> 'm"
  lookAt :: "vec3 \<Rightarrow> vec3 \<Rightarrow> vec3 \<Rightarrow> 'm"
  translate :: "'m \<Rightarrow> vec3 \<Rightarrow> 'm"
  rotate :: "'m \<Rightarrow> real \<Rightarrow> vec3 \<Rightarrow> 'm"
  normalize :: "vec3 \<Rightarrow> vec3"
  radians :: "real \<Rightarrow> real"

datatype 'm gl_call =
    glClearColor real real real real
  | glClear_color_depth
  | glEnable gl_enum
  | glCullFace gl_enum
  | program_bind ShaderProgram
  | glViewport int int int int
  | program_setUniform string 'm
  | mesh_render Mesh gl_enum

text \<open>Conversion of an integer value to \<open>size_t\<close> (64 bits) and to \<open>GLint\<close> (32 bits, two's
  complement).\<close>

definition to_size_t :: "int \<Rightarrow> int" where
  "to_size_t v = v mod 2 ^ 64"

definition to_GLint :: "int \<Rightarrow> int" where
  "to_GLint v = (v + 2 ^ 31) mod 2 ^ 32 - 2 ^ 31"

text \<open>A \<open>float\<close> division; \<open>None\<close> stands for the infinity or NaN that a zero divisor gives.\<close>

definition float_div :: "real \<Rightarrow> real \<Rightarrow> real option" where
  "float_div a b = (if b = 0 then None else Some (a / b))"

text \<open>The number of rows \<open>(m_shapes.size() + Columns - 1) / Columns\<close>, computed in
  \<open>size_t\<close>.\<close>

definition row_count :: "nat \<Rightarrow> int" where
  "row_count n = to_size_t (to_size_t (int n + to_size_t 3) - to_size_t 1) div to_size_t 3"

text \<open>The body of the loop over the shapes, for the shape of index \<open>i\<close>.\<close>

definition render_shape :: "'m glm \<Rightarrow> Demo \<Rightarrow> int \<Rightarrow> int \<Rightarrow> nat \<Rightarrow> Shape \<Rightarrow> 'm gl_call list" where
  "render_shape G demo viewportWidth viewportHeight i shape =
     (let viewportX = to_size_t ((int i mod to_size_t 3) * to_size_t viewportWidth);
          viewportY = to_size_t ((int i div to_size_t 3) * viewportHeight);
          projection = perspective G (radians G 45)
                         (float_div (real_of_int viewportWidth) (real_of_int viewportHeight))
                         0.1 100;
          viewPos = Vec3 0 0 (-18);
          viewUp = Vec3 0 1 0;
          view = lookAt G viewPos (Vec3 0 0 0) viewUp;
          c = vec3_scale 0.5 (vec3_add (bb_min (boundingBox shape)) (bb_max (boundingBox shape)));
          t = translate G (mat4 G 1) (vec3_neg c);
          angle = - 1.5 * m_curTime demo;
          r = rotate G (mat4 G 1) angle (normalize G (Vec3 1 1 1));
          model = mat_mul G r t;
          mvp = mat_mul G (mat_mul G projection view) model
      in [glViewport (to_GLint viewportX) (to_GLint viewportY) viewportWidth (to_GLint viewportHeight),
          program_setUniform ''mvp'' mvp,
          mesh_render (mesh shape) GL_TRIANGLES])"

text \<open>\<open>for (size_t i = 0; i < m_shapes.size(); ++i)\<close>\<close>

function render_loop :: "'m glm \<Rightarrow> Demo \<Rightarrow> int \<Rightarrow> int \<Rightarrow> nat \<Rightarrow> 'm gl_call list" where
  "render_loop G demo viewportWidth viewportHeight i =
     (if i < length (m_shapes demo) then
        render_shape G demo viewportWidth viewportHeight i (m_shapes demo ! i) @
        render_loop G demo viewportWidth viewportHeight (i + 1)
      else [])"
  by pat_completeness auto
termination
  by (relation "measure (\<lambda>(G, demo, w, h, i). length (m_shapes demo) - i)") auto

declare render_loop.simps [simp del]

text \<open>
  \<open>Demo::render\<close>. It returns the calls made on OpenGL, the program and the meshes, in order.
  Two steps have undefined behaviour, and the model fails there: \<open>m_shapeProgram->bind()\<close> on
  the null pointer that \<open>m_shapeProgram\<close> holds before \<open>initialize\<close>, and the integer
  division of \<open>m_canvasHeight\<close> by a row count of zero.
\<close>

definition render :: "'m glm \<Rightarrow> Demo \<Rightarrow> failure + 'm gl_call list" where
  "render G demo =
     (case m_shapeProgram demo of
        None \<Rightarrow> Inl NullPointer
      | Some prog \<Rightarrow>
          (let viewportWidth = m_canvasWidth demo sdiv 3;
               rows = row_count (length (m_shapes demo))
           in if rows = 0 then Inl DivisionByZero
              else
                (let viewportHeight = to_size_t (m_canvasHeight demo) div rows
                 in Inr ([glClearColor 1 1 1 1, glClear_color_depth, glEnable GL_DEPTH_TEST,
                          glEnable GL_CULL_FACE, glCullFace GL_BACK, program_bind prog] @
                         render_loop G demo viewportWidth viewportHeight 0))))"

text \<open>
  \<open>Demo::renderAndStep\<close>: the calls of the frame and the demo after the step.
  \<open>m_curTime += dt\<close> is an addition of \<open>float\<close>. When the sum is an infinity the elapsed
  time has no value in the model, which stops there with \<open>TimeNotFinite\<close>; the program goes
  on with an infinite time.
\<close>

definition renderAndStep :: "'m glm \<Rightarrow> Demo \<Rightarrow> real \<Rightarrow> failure + ('m gl_call list \<times> Demo)" where
  "renderAndStep G demo dt =
     (case render G demo of
        Inl e \<Rightarrow> Inl e
      | Inr calls \<Rightarrow>
          (case float_add (m_curTime demo) dt of
             None \<Rightarrow> Inl TimeNotFinite
           | Some t \<Rightarrow> Inr (calls, demo\<lparr>m_curTime := t\<rparr>)))"

section \<open>Notions used in the statements\<close>

text \<open>
  The definitions of this section are not part of the program. They name the properties that
  the theorems state (\<open>one_hot\<close>, \<open>even_vec\<close>, \<open>axis_steps\<close>, \<open>vec3_le\<close>), the sum
  \<open>vec3_plus\<close> of two vectors over the reals, without rounding, the unit vector
  \<open>axis_unit\<close> of a direction (bit 2 for X, bit 1 for Y, bit 0 for Z), the
  invariants of the walk, and sample data on which the theorems are evaluated: an instance of
  the matrix functions that builds expressions, with \<open>normalize\<close> and \<open>radians\<close> left as the
  identity, and a demo of six small shapes.
\<close>

definition one_hot :: "32 word \<Rightarrow> bool" where
  "one_hot dir = (dir = 1 \<or> dir = 2 \<or> dir = 4)"

definition walk_ok :: "walk_state \<Rightarrow> bool" where
  "walk_ok st = (one_hot (direction st) \<and> (side st = 1 \<or> side st = - 1))"

definition block_at :: "vec3 \<Rightarrow> vec3 \<Rightarrow> nat \<Rightarrow> vec3" where
  "block_at c d k = ((\<lambda>v. vec3_add v d) ^^ k) c"

definition vec3_plus :: "vec3 \<Rightarrow> vec3 \<Rightarrow> vec3" where
  "vec3_plus a b = Vec3 (vx a + vx b) (vy a + vy b) (vz a + vz b)"

definition axis_unit :: "32 word \<Rightarrow> vec3" where
  "axis_unit dir = (if dir = 4 then Vec3 1 0 0 else if dir = 2 then Vec3 0 1 0 else Vec3 0 0 1)"

definition even_integer :: "real \<Rightarrow> bool" where
  "even_integer r = (real_of_int \<lfloor>r\<rfloor> = r \<and> even \<lfloor>r\<rfloor>)"

definition even_vec :: "vec3 \<Rightarrow> bool" where
  "even_vec v = (even_integer (vx v) \<and> even_integer (vy v) \<and> even_integer (vz v))"

definition axis_steps :: "vec3 set" where
  "axis_steps = {Vec3 2 0 0, Vec3 (-2) 0 0, Vec3 0 2 0, Vec3 0 (-2) 0, Vec3 0 0 2, Vec3 0 0 (-2)}"

definition even_within :: "int \<Rightarrow> vec3 \<Rightarrow> bool" where
  "even_within m v =
     (even_vec v \<and> \<bar>vx v\<bar> \<le> real_of_int m \<and> \<bar>vy v\<bar> \<le> real_of_int m \<and> \<bar>vz v\<bar> \<le> real_of_int m)"

definition walk_even :: "walk_state \<Rightarrow> bool" where
  "walk_even st = (even_vec (center st) \<and> (\<forall>b \<in> set (blocks st). even_vec b))"

definition vec3_le :: "vec3 \<Rightarrow> vec3 \<Rightarrow> bool" where
  "vec3_le a b = (vx a \<le> vx b \<and> vy a \<le> vy b \<and> vz a \<le> vz b)"

datatype mat_expr =
    Mat4 real
  | Mul mat_expr mat_expr
  | Perspective real "real option" real real
  | LookAt vec3 vec3 vec3
  | Translate mat_expr vec3
  | Rotate mat_expr real vec3

definition symbolic_glm :: "mat_expr glm" where
  "symbolic_glm =
     \<lparr>mat4 = Mat4, mat_mul = Mul, perspective = Perspective, lookAt = LookAt,
      translate = Translate, rotate = Rotate, normalize = (\<lambda>v. v), radians = (\<lambda>d. d)\<rparr>"

definition sample_shape :: Shape where
  "sample_shape =
     \<lparr>boundingBox = \<lparr>bb_min = Vec3 (-1) (-1) (-1), bb_max = Vec3 1 11 11\<rparr>,
      mesh = \<lparr>vertexCount = 0, vertexSize = 20,
              vertexAttributes = [(3, GL_FLOAT, 0), (2, GL_FLOAT, 12)], vertexData = []\<rparr>\<rparr>"

definition sample_demo :: Demo where
  "sample_demo =
     \<lparr>m_canvasWidth = 640, m_canvasHeight = 480, m_shapes = replicate 6 sample_shape,
      m_curTime = 2, m_shapeProgram = Some \<lparr>shaders = [], linked = True\<rparr>\<rparr>"

section \<open>Properties\<close>

subsection \<open>Rounding\<close>

lemma ilog2_bounds: "0 < n \<Longrightarrow> 2 ^ ilog2 n \<le> n \<and> n < 2 ^ Suc (ilog2 n)"
proof (induction n rule: ilog2.induct)
  case (1 n)
  show ?case
  proof (cases "n < 2")
    case True
    with "1.prems" have "n = 1" by simp
    then show ?thesis by (simp add: ilog2.simps)
  next
    case False
    then have h: "0 < n div 2" by simp
    from "1.IH" [OF False h]
    have a: "2 ^ ilog2 (n div 2) \<le> n div 2" and b: "n div 2 < 2 ^ Suc (ilog2 (n div 2))"
      by simp_all
    have e: "ilog2 n = Suc (ilog2 (n div 2))" using False by (subst ilog2.simps) simp
    have "2 * 2 ^ ilog2 (n div 2) \<le> 2 * (n div 2)" using a by simp
    also have "\<dots> \<le> n" by simp
    finally have lo: "2 ^ ilog2 n \<le> n" by (simp add: e)
    have "n div 2 + 1 \<le> 2 ^ Suc (ilog2 (n div 2))" using b by simp
    then have "2 * (n div 2) + 2 \<le> 2 * 2 ^ Suc (ilog2 (n div 2))" by simp
    moreover have "n < 2 * (n div 2) + 2" by presburger
    ultimately have hi: "n < 2 ^ Suc (ilog2 n)" by (simp add: e)
    from lo hi show ?thesis by simp
  qed
qed

lemma ilog2_le:
  assumes "0 < n" and "n < 2 ^ Suc k"
  shows "ilog2 n \<le> k"
proof (rule ccontr)
  assume "\<not> ilog2 n \<le> k"
  then have "Suc k \<le> ilog2 n" by simp
  then have "(2::int) ^ Suc k \<le> 2 ^ ilog2 n" by (rule power_increasing) simp
  also have "\<dots> \<le> n" using ilog2_bounds [OF assms(1)] by simp
  finally show False using assms(2) by simp
qed

lemma round_half_even_int [simp]: "round_half_even (real_of_int m) = m"
  by (simp add: round_half_even_def)

lemma float_exponent_int:
  assumes "n \<noteq> 0"
  shows "float_exponent (real_of_int n) = int (ilog2 \<bar>n\<bar>)"
proof -
  have "1 \<le> \<bar>n\<bar>" using assms by simp
  then have "real_of_int 1 \<le> real_of_int \<bar>n\<bar>" by (simp only: of_int_le_iff)
  then have "1 \<le> \<bar>real_of_int n\<bar>" by simp
  moreover have "\<lfloor>\<bar>real_of_int n\<bar>\<rfloor> = \<bar>n\<bar>"
  proof -
    have "\<bar>real_of_int n\<bar> = real_of_int \<bar>n\<bar>" by simp
    then show ?thesis by (simp only: floor_of_int)
  qed
  ultimately show ?thesis by (simp add: float_exponent_def)
qed


lemma round_float_0 [simp]: "round_float 0 = 0"
  by (simp add: round_float_def)

lemma float_ulp_int_small:
  assumes "n \<noteq> 0" and "ilog2 \<bar>n\<bar> \<le> 23"
  shows "float_ulp (real_of_int n) = 1 / 2 ^ (23 - ilog2 \<bar>n\<bar>)"
proof (cases "ilog2 \<bar>n\<bar> = 23")
  case True
  then show ?thesis by (simp add: float_ulp_def float_exponent_int [OF assms(1)] pow2_def)
next
  case False
  with assms(2) have "ilog2 \<bar>n\<bar> < 23" by simp
  then have "nat (23 - int (ilog2 \<bar>n\<bar>)) = 23 - ilog2 \<bar>n\<bar>" by simp
  then show ?thesis
    using \<open>ilog2 \<bar>n\<bar> < 23\<close>
    by (simp add: float_ulp_def float_exponent_int [OF assms(1)] pow2_def)
qed

lemma float_ulp_int_large:
  assumes "n \<noteq> 0" and "23 \<le> ilog2 \<bar>n\<bar>"
  shows "float_ulp (real_of_int n) = 2 ^ (ilog2 \<bar>n\<bar> - 23)"
proof -
  have "nat (int (ilog2 \<bar>n\<bar>) - 23) = ilog2 \<bar>n\<bar> - 23" by simp
  then show ?thesis
    using assms(2) by (simp add: float_ulp_def float_exponent_int [OF assms(1)] pow2_def)
qed

lemma round_float_int_small:
  assumes "n \<noteq> 0" and "ilog2 \<bar>n\<bar> \<le> 23"
  shows "round_float (real_of_int n) = real_of_int n"
proof -
  define p :: nat where "p = 23 - ilog2 \<bar>n\<bar>"
  have u: "float_ulp (real_of_int n) = 1 / 2 ^ p"
    unfolding p_def by (rule float_ulp_int_small [OF assms])
  have "real_of_int n / (1 / 2 ^ p) = real_of_int (n * 2 ^ p)" by simp
  then have "round_half_even (real_of_int n / float_ulp (real_of_int n)) = n * 2 ^ p"
    unfolding u by (simp only: round_half_even_int)
  then show ?thesis
    using assms(1) by (simp add: round_float_def u)
qed

lemma round_float_int_large:
  assumes "n \<noteq> 0" and "23 \<le> ilog2 \<bar>n\<bar>"
  shows "round_float (real_of_int n) =
     real_of_int (round_half_even (real_of_int n / 2 ^ (ilog2 \<bar>n\<bar> - 23)) * 2 ^ (ilog2 \<bar>n\<bar> - 23))"
  using assms(1) by (simp add: round_float_def float_ulp_int_large [OF assms])

lemma round_float_int_dvd:
  assumes "n \<noteq> 0" and "23 \<le> ilog2 \<bar>n\<bar>" and "2 ^ (ilog2 \<bar>n\<bar> - 23) dvd n"
  shows "round_float (real_of_int n) = real_of_int n"
proof -
  from assms(3) obtain m where m: "n = 2 ^ (ilog2 \<bar>n\<bar> - 23) * m" by (auto elim: dvdE)
  define q :: nat where "q = ilog2 \<bar>n\<bar> - 23"
  have n: "n = 2 ^ q * m" using m by (simp add: q_def)
  have "real_of_int n / 2 ^ q = real_of_int m"
    by (subst n) simp
  then have "round_half_even (real_of_int n / 2 ^ q) = m"
    by (simp only: round_half_even_int)
  then have "round_float (real_of_int n) = real_of_int (m * 2 ^ q)"
    unfolding round_float_int_large [OF assms(1,2)] q_def [symmetric] by simp
  moreover have "m * 2 ^ q = n" using n by (simp add: mult.commute)
  ultimately show ?thesis by simp
qed

text \<open>Integers up to \<open>2 ^ 24\<close> and even integers up to \<open>2 ^ 25\<close> are binary32 values.\<close>

lemma round_float_int:
  assumes "\<bar>n\<bar> \<le> 2 ^ 24"
  shows "round_float (real_of_int n) = real_of_int n"
proof (cases "n = 0")
  case True
  then show ?thesis by simp
next
  case False
  then have pos: "0 < \<bar>n\<bar>" by simp
  show ?thesis
  proof (cases "\<bar>n\<bar> = 2 ^ 24")
    case True
    have lo: "ilog2 \<bar>n\<bar> \<le> 24" by (rule ilog2_le [OF pos]) (simp add: True)
    have "\<not> ilog2 \<bar>n\<bar> \<le> 23"
    proof
      assume "ilog2 \<bar>n\<bar> \<le> 23"
      then have "Suc (ilog2 \<bar>n\<bar>) \<le> 24" by simp
      then have "(2::int) ^ Suc (ilog2 \<bar>n\<bar>) \<le> 2 ^ 24" by (rule power_increasing) simp
      with ilog2_bounds [OF pos] True show False by simp
    qed
    with lo have e: "ilog2 \<bar>n\<bar> = 24" by simp
    have "(2::int) dvd n" using True by (metis dvd_abs_iff dvd_power even_numeral zero_less_numeral)
    then show ?thesis
      using round_float_int_dvd [OF False] e by simp
  next
    case False
    with assms have "\<bar>n\<bar> < 2 ^ Suc 23" by simp
    then have "ilog2 \<bar>n\<bar> \<le> 23" by (rule ilog2_le [OF pos])
    then show ?thesis by (rule round_float_int_small [OF \<open>n \<noteq> 0\<close>])
  qed
qed

lemma round_float_even_int:
  assumes "even n" and "\<bar>n\<bar> \<le> 2 ^ 25"
  shows "round_float (real_of_int n) = real_of_int n"
proof (cases "\<bar>n\<bar> \<le> 2 ^ 24")
  case True
  then show ?thesis by (rule round_float_int)
next
  case False
  then have big: "2 ^ 24 < \<bar>n\<bar>" by simp
  then have nz: "n \<noteq> 0" and pos: "0 < \<bar>n\<bar>" by auto
  have ge: "24 \<le> ilog2 \<bar>n\<bar>"
  proof (rule ccontr)
    assume "\<not> 24 \<le> ilog2 \<bar>n\<bar>"
    then have "Suc (ilog2 \<bar>n\<bar>) \<le> 24" by simp
    then have "(2::int) ^ Suc (ilog2 \<bar>n\<bar>) \<le> 2 ^ 24" by (rule power_increasing) simp
    with ilog2_bounds [OF pos] big show False by simp
  qed
  show ?thesis
  proof (cases "\<bar>n\<bar> = 2 ^ 25")
    case True
    have "ilog2 \<bar>n\<bar> \<le> 25" by (rule ilog2_le [OF pos]) (simp add: True)
    moreover have "\<not> ilog2 \<bar>n\<bar> \<le> 24"
    proof
      assume "ilog2 \<bar>n\<bar> \<le> 24"
      then have "Suc (ilog2 \<bar>n\<bar>) \<le> 25" by simp
      then have "(2::int) ^ Suc (ilog2 \<bar>n\<bar>) \<le> 2 ^ 25" by (rule power_increasing) simp
      with ilog2_bounds [OF pos] True show False by simp
    qed
    ultimately have e: "ilog2 \<bar>n\<bar> = 25" by simp
    have "(4::int) dvd \<bar>n\<bar>" unfolding True by simp
    then have "(4::int) dvd n" by simp
    then show ?thesis using round_float_int_dvd [OF nz] e by simp
  next
    case False
    with assms(2) have "\<bar>n\<bar> < 2 ^ Suc 24" by simp
    then have "ilog2 \<bar>n\<bar> \<le> 24" by (rule ilog2_le [OF pos])
    with ge have e: "ilog2 \<bar>n\<bar> = 24" by simp
    show ?thesis using round_float_int_dvd [OF nz] e assms(1) by simp
  qed
qed

text \<open>The binary32 value nearest to an even integer is an even integer.\<close>

lemma round_float_even:
  assumes "even n"
  shows "\<exists>m. even m \<and> round_float (real_of_int n) = real_of_int m"
proof (cases "n = 0")
  case True
  then show ?thesis by (intro exI [of _ 0]) simp
next
  case nz: False
  show ?thesis
  proof (cases "ilog2 \<bar>n\<bar> \<le> 23")
    case True
    then show ?thesis using round_float_int_small [OF nz] assms by blast
  next
    case False
    then have ge: "23 \<le> ilog2 \<bar>n\<bar>" and gt: "0 < ilog2 \<bar>n\<bar> - 23" by simp_all
    define q where "q = ilog2 \<bar>n\<bar> - 23"
    define k where "k = round_half_even (real_of_int n / 2 ^ q)"
    have "round_float (real_of_int n) = real_of_int (k * 2 ^ q)"
      unfolding k_def q_def by (rule round_float_int_large [OF nz ge])
    moreover have "even (k * 2 ^ q)" using gt by (simp add: q_def)
    ultimately show ?thesis by blast
  qed
qed

lemma round_float_numeral [simp]:
  "numeral k \<le> (2 ^ 24 :: int) \<Longrightarrow> round_float (numeral k) = numeral k"
  "numeral k \<le> (2 ^ 24 :: int) \<Longrightarrow> round_float (- numeral k) = - numeral k"
  "round_float 1 = 1" "round_float (- 1) = - 1"
  using round_float_int [of "numeral k"] round_float_int [of "- numeral k"]
    round_float_int [of 1] round_float_int [of "- 1"]
  by simp_all

lemma ilog2_eval: "ilog2 16777217 = 24" "ilog2 33554434 = 25" "ilog2 2 = 1"
  by code_simp+

lemma round_float_2p24_1: "round_float 16777217 = 16777216"
proof -
  have "round_float (real_of_int 16777217) =
     real_of_int (round_half_even (real_of_int 16777217 / 2 ^ (ilog2 \<bar>16777217\<bar> - 23)) *
       2 ^ (ilog2 \<bar>16777217\<bar> - 23))"
    by (rule round_float_int_large) (simp_all add: ilog2_eval)
  then show ?thesis by (simp add: ilog2_eval round_half_even_def)
qed

lemma round_float_2p25_2: "round_float 33554434 = 33554432"
proof -
  have "round_float (real_of_int 33554434) =
     real_of_int (round_half_even (real_of_int 33554434 / 2 ^ (ilog2 \<bar>33554434\<bar> - 23)) *
       2 ^ (ilog2 \<bar>33554434\<bar> - 23))"
    by (rule round_float_int_large) (simp_all add: ilog2_eval)
  then show ?thesis by (simp add: ilog2_eval round_half_even_def)
qed

lemma round_float_5_2: "round_float (5 / 2) = 5 / 2"
  by (simp add: round_float_def float_ulp_def float_exponent_def pow2_def ilog2_eval
      round_half_even_def)

subsection \<open>The walk\<close>

lemma block_at_0 [simp]: "block_at c d 0 = c"
  by (simp add: block_at_def)

lemma block_at_step: "block_at c d (Suc j) = vec3_add (block_at c d j) d"
  by (simp add: block_at_def)

lemma block_at_Suc: "block_at (vec3_add c d) d k = block_at c d (Suc k)"
  by (simp only: block_at_def funpow_Suc_right o_apply)

lemma place_blocks_eq:
  "place_blocks i len d (bs, c) =
     (bs @ map (block_at c d) [0..<nat (len - i)], block_at c d (nat (len - i)))"
proof (induction i len d "(bs, c)" arbitrary: bs c rule: place_blocks.induct)
  case (1 i len d bs c)
  show ?case
  proof (cases "i < len")
    case True
    then have n: "nat (len - i) = Suc (nat (len - (i + 1)))" by simp
    have m: "map (block_at c d) [0..<Suc (nat (len - (i + 1)))] =
          c # map (block_at (vec3_add c d) d) [0..<nat (len - (i + 1))]"
      by (simp add: upt_conv_Cons map_Suc_upt [symmetric] block_at_Suc del: upt_Suc)
    show ?thesis
      using True "1.hyps" [OF True]
      by (subst place_blocks.simps) (simp add: n m block_at_Suc del: upt_Suc)
  next
    case False
    then show ?thesis by (subst place_blocks.simps) simp
  qed
qed

lemma switch_direction_ok:
  assumes "one_hot dir"
  shows "\<exists>dir'. switch_direction coin dir g = Inr (dir', Suc g) \<and> one_hot dir' \<and> dir' \<noteq> dir"
  using assms by (auto simp: one_hot_def switch_direction_def zero_or_one_def)

lemma segment_body_ok:
  assumes "walk_ok st"
  shows "\<exists>st'. segment_body coin len st = Inr st' \<and> walk_ok st' \<and> direction st' \<noteq> direction st
     \<and> blocks st' = blocks st @ map (block_at (center st) (segment_step st)) [0..<nat len]
     \<and> center st' = block_at (center st) (segment_step st) (nat len)
     \<and> generator st' = generator st + 2"
proof -
  from assms have "one_hot (direction st)" by (simp add: walk_ok_def)
  from switch_direction_ok [OF this, of coin "generator st"]
  obtain dir' where d: "switch_direction coin (direction st) (generator st) = Inr (dir', Suc (generator st))"
    "one_hot dir'" "dir' \<noteq> direction st" by blast
  show ?thesis
    using assms d
    by (auto simp: segment_body_def place_blocks_eq zero_or_one_def walk_ok_def Let_def)
qed

lemma segments_loop_append:
  "segments_loop coin (xs @ ys) st =
     (case segments_loop coin xs st of Inl e \<Rightarrow> Inl e | Inr st' \<Rightarrow> segments_loop coin ys st')"
  by (induction xs arbitrary: st) (auto split: sum.splits)

lemma segments_loop_ok:
  assumes "walk_ok st"
  shows "\<exists>st'. segments_loop coin segs st = Inr st' \<and> walk_ok st'
     \<and> length (blocks st') = length (blocks st) + sum_list (map nat segs)
     \<and> take (length (blocks st)) (blocks st') = blocks st
     \<and> generator st' = generator st + 2 * length segs"
  using assms
proof (induction segs arbitrary: st)
  case Nil
  then show ?case by simp
next
  case (Cons len rest)
  from segment_body_ok [OF Cons.prems, of coin len]
  obtain st1 where s1: "segment_body coin len st = Inr st1" "walk_ok st1"
    "blocks st1 = blocks st @ map (block_at (center st) (segment_step st)) [0..<nat len]"
    "generator st1 = generator st + 2"
    by blast
  from Cons.IH [OF s1(2)]
  obtain st' where s2: "segments_loop coin rest st1 = Inr st'" "walk_ok st'"
    "length (blocks st') = length (blocks st1) + sum_list (map nat rest)"
    "take (length (blocks st1)) (blocks st') = blocks st1"
    "generator st' = generator st1 + 2 * length rest"
    by blast
  have "take (length (blocks st)) (blocks st') = take (length (blocks st)) (take (length (blocks st1)) (blocks st'))"
    using s1(3) by (simp add: min_def)
  also have "\<dots> = blocks st" using s2(4) s1(3) by simp
  finally show ?case using s1 s2 by simp
qed

lemma initial_walk_ok: "walk_ok (initial_walk g)"
  by (simp add: walk_ok_def one_hot_def initial_walk_def)

lemma even_integer_iff: "even_integer r \<longleftrightarrow> (\<exists>k::int. r = 2 * real_of_int k)"
proof
  assume "even_integer r"
  then have r: "real_of_int \<lfloor>r\<rfloor> = r" and "even \<lfloor>r\<rfloor>" by (simp_all add: even_integer_def)
  then obtain k where "\<lfloor>r\<rfloor> = 2 * k" by (auto elim: evenE)
  with r have "r = 2 * real_of_int k" by (metis of_int_mult of_int_numeral)
  then show "\<exists>k::int. r = 2 * real_of_int k" ..
next
  assume "\<exists>k::int. r = 2 * real_of_int k"
  then obtain k :: int where "r = 2 * real_of_int k" ..
  then have "r = real_of_int (2 * k)" by simp
  then show "even_integer r" unfolding even_integer_def by (simp only: floor_of_int) simp
qed

lemma even_integer_0 [simp]: "even_integer 0"
  by (simp add: even_integer_def)

lemma even_integer_round_add:
  assumes "even_integer a" and "s = 2 \<or> s = - 2 \<or> s = 0"
  shows "even_integer (round_float (a + s))"
proof -
  from assms(1) obtain m :: int where a: "a = 2 * real_of_int m"
    by (auto simp: even_integer_iff)
  from assms(2) obtain e :: int where s: "s = 2 * real_of_int e"
    by (elim disjE) (rule that [of 1], simp, rule that [of "-1"], simp, rule that [of 0], simp)
  have "a + s = real_of_int (2 * (m + e))" by (simp add: a s)
  moreover obtain r where "even r" "round_float (real_of_int (2 * (m + e))) = real_of_int r"
    using round_float_even [of "2 * (m + e)"] by auto
  ultimately have "round_float (a + s) = real_of_int r" and "even r" by simp_all
  then obtain q where "round_float (a + s) = 2 * real_of_int q"
    by (auto elim!: evenE)
  then show ?thesis unfolding even_integer_iff by blast
qed

text \<open>Within \<open>2 ^ 25\<close> the sum of an even integer and a step is exact.\<close>

lemma round_add_exact:
  assumes "even_integer a" and "\<bar>a\<bar> \<le> real_of_int m" and "s = 2 \<or> s = - 2 \<or> s = 0"
    and "m + 2 \<le> 2 ^ 25"
  shows "round_float (a + s) = a + s" and "\<bar>a + s\<bar> \<le> real_of_int (m + 2)"
proof -
  from assms(1) obtain k :: int where a: "a = 2 * real_of_int k"
    by (auto simp: even_integer_iff)
  from assms(3) obtain e :: int where s: "s = 2 * real_of_int e" and e: "\<bar>e\<bar> \<le> 1"
    by (elim disjE) (rule that [of 1], simp, simp, rule that [of "-1"], simp, simp,
        rule that [of 0], simp, simp)
  have sum: "a + s = real_of_int (2 * (k + e))" by (simp add: a s)
  have "real_of_int \<bar>2 * k\<bar> \<le> real_of_int m" using assms(2) by (simp add: a)
  then have k: "\<bar>2 * k\<bar> \<le> m" by (simp only: of_int_le_iff)
  have b: "\<bar>2 * (k + e)\<bar> \<le> m + 2" using k e by (auto simp: abs_le_iff)
  then have "\<bar>2 * (k + e)\<bar> \<le> 2 ^ 25" using assms(4) by linarith
  then have "round_float (real_of_int (2 * (k + e))) = real_of_int (2 * (k + e))"
    by (intro round_float_even_int) simp_all
  then show "round_float (a + s) = a + s" by (simp only: sum)
  have "real_of_int \<bar>2 * (k + e)\<bar> \<le> real_of_int (m + 2)" using b by (simp only: of_int_le_iff)
  then show "\<bar>a + s\<bar> \<le> real_of_int (m + 2)" by (simp only: sum of_int_abs)
qed

lemma direction_vec_one_hot:
  "direction_vec 1 = Vec3 0 0 1" "direction_vec 2 = Vec3 0 1 0" "direction_vec 4 = Vec3 1 0 0"
  by (simp_all add: direction_vec_def)

lemma segment_step_axis:
  assumes "walk_ok st"
  shows "segment_step st \<in> axis_steps"
proof -
  from assms have d: "direction st = 1 \<or> direction st = 2 \<or> direction st = 4"
    and s: "side st = 1 \<or> side st = - 1"
    by (simp_all add: walk_ok_def one_hot_def)
  from d s show ?thesis
    by (elim disjE)
      (simp_all add: segment_step_def direction_vec_one_hot vec3_scale_def axis_steps_def)
qed

lemma axis_steps_components:
  assumes "d \<in> axis_steps"
  shows "vx d = 2 \<or> vx d = - 2 \<or> vx d = 0" "vy d = 2 \<or> vy d = - 2 \<or> vy d = 0"
    "vz d = 2 \<or> vz d = - 2 \<or> vz d = 0"
  using assms by (auto simp: axis_steps_def)

lemma even_vec_step:
  assumes "even_vec v" and "d \<in> axis_steps"
  shows "even_vec (vec3_add v d)"
  using assms(1) axis_steps_components [OF assms(2)]
  by (simp add: even_vec_def vec3_add_def even_integer_round_add)

lemma even_vec_block_at:
  assumes "even_vec c" and "d \<in> axis_steps"
  shows "even_vec (block_at c d k)"
  by (induction k) (simp_all add: assms block_at_step even_vec_step)

lemma even_within_step:
  assumes "even_within m v" and "d \<in> axis_steps" and "m + 2 \<le> 2 ^ 25"
  shows "vec3_add v d = vec3_plus v d" and "even_within (m + 2) (vec3_add v d)"
proof -
  note c = axis_steps_components [OF assms(2)]
  have ev: "even_integer (vx v)" "even_integer (vy v)" "even_integer (vz v)"
    and bd: "\<bar>vx v\<bar> \<le> real_of_int m" "\<bar>vy v\<bar> \<le> real_of_int m" "\<bar>vz v\<bar> \<le> real_of_int m"
    using assms(1) by (simp_all add: even_within_def even_vec_def)
  note x = round_add_exact [OF ev(1) bd(1) c(1) assms(3)]
  note y = round_add_exact [OF ev(2) bd(2) c(2) assms(3)]
  note z = round_add_exact [OF ev(3) bd(3) c(3) assms(3)]
  show "vec3_add v d = vec3_plus v d"
    by (simp add: vec3_add_def vec3_plus_def x(1) y(1) z(1))
  have "even_vec (vec3_add v d)"
    using assms(1,2) by (simp add: even_within_def even_vec_step)
  then show "even_within (m + 2) (vec3_add v d)"
    unfolding even_within_def using x(2) y(2) z(2)
    by (simp add: vec3_add_def x(1) y(1) z(1))
qed

text \<open>Within \<open>2 ^ 25\<close> the \<open>k\<close>-th centre of a segment is \<open>k\<close> exact steps from the first.\<close>

lemma block_at_exact:
  assumes "even_within m c" and "d \<in> axis_steps" and "m + 2 * int k \<le> 2 ^ 25"
  shows "block_at c d k = vec3_plus c (vec3_scale (real k) d) \<and>
         even_within (m + 2 * int k) (block_at c d k)"
  using assms(3)
proof (induction k)
  case 0
  show ?case using assms(1) by (cases c) (simp add: vec3_plus_def vec3_scale_def)
next
  case (Suc k)
  have "m + 2 * int k \<le> 2 ^ 25" using Suc.prems by simp
  from Suc.IH [OF this]
  have ih: "block_at c d k = vec3_plus c (vec3_scale (real k) d)"
    "even_within (m + 2 * int k) (block_at c d k)"
    by blast+
  have b: "m + 2 * int k + 2 \<le> 2 ^ 25" using Suc.prems by simp
  note st = even_within_step [OF ih(2) assms(2) b]
  have "block_at c d (Suc k) = vec3_plus (block_at c d k) d"
    by (simp add: block_at_step st(1))
  also have "\<dots> = vec3_plus c (vec3_scale (real (Suc k)) d)"
    unfolding ih(1) by (simp add: vec3_plus_def vec3_scale_def algebra_simps)
  finally have 1: "block_at c d (Suc k) = vec3_plus c (vec3_scale (real (Suc k)) d)" .
  have e: "m + 2 * int (Suc k) = m + 2 * int k + 2" by simp
  have 2: "even_within (m + 2 * int (Suc k)) (block_at c d (Suc k))"
    unfolding e block_at_step by (rule st(2))
  from 1 2 show ?case by simp
qed

lemma segments_loop_even:
  assumes "walk_ok st" and "walk_even st" and "segments_loop coin segs st = Inr st'"
  shows "walk_even st'"
  using assms
proof (induction segs arbitrary: st)
  case Nil
  then show ?case by simp
next
  case (Cons len rest)
  from segment_body_ok [OF Cons.prems(1), of coin len]
  obtain st1 where s1: "segment_body coin len st = Inr st1" "walk_ok st1"
    "blocks st1 = blocks st @ map (block_at (center st) (segment_step st)) [0..<nat len]"
    "center st1 = block_at (center st) (segment_step st) (nat len)"
    by blast
  have ev: "\<And>k. even_vec (block_at (center st) (segment_step st) k)"
    using Cons.prems(1,2) by (simp add: even_vec_block_at segment_step_axis walk_even_def)
  have "walk_even st1"
    using Cons.prems(2) s1(3,4) ev by (auto simp: walk_even_def)
  moreover have "segments_loop coin rest st1 = Inr st'"
    using Cons.prems(3) s1(1) by simp
  ultimately show ?case using Cons.IH s1(2) by blast
qed

lemma segments_loop_first:
  assumes "walk_ok st" and "segments_loop coin segs st = Inr st'" and "blocks st' \<noteq> []"
  shows "blocks st' ! 0 = (if blocks st = [] then center st else blocks st ! 0)"
  using assms
proof (induction segs arbitrary: st)
  case Nil
  then show ?case by simp
next
  case (Cons len rest)
  from segment_body_ok [OF Cons.prems(1), of coin len]
  obtain st1 where s1: "segment_body coin len st = Inr st1" "walk_ok st1"
    "blocks st1 = blocks st @ map (block_at (center st) (segment_step st)) [0..<nat len]"
    "center st1 = block_at (center st) (segment_step st) (nat len)"
    by blast
  have r: "segments_loop coin rest st1 = Inr st'"
    using Cons.prems(2) s1(1) by simp
  have ih: "blocks st' ! 0 = (if blocks st1 = [] then center st1 else blocks st1 ! 0)"
    by (rule Cons.IH [OF s1(2) r Cons.prems(3)])
  show ?case
  proof (cases "blocks st = []")
    case False
    then show ?thesis using ih s1(3) by (simp add: nth_append)
  next
    case True
    show ?thesis
    proof (cases "nat len = 0")
      case True
      with \<open>blocks st = []\<close> show ?thesis using ih s1(3,4) by simp
    next
      case False
      then have "[0..<nat len] = 0 # [1..<nat len]" by (simp add: upt_conv_Cons)
      with \<open>blocks st = []\<close> show ?thesis using ih s1(3) by simp
    qed
  qed
qed

lemma length_addFace: "length (addFace c vs p0 p1 p2 p3) = length vs + 6"
  by (simp add: addFace_def)

lemma add_cube_append: "add_cube c vs = vs @ add_cube c []"
  by (simp add: add_cube_def addFace_def)

lemma length_add_cube: "length (add_cube c []) = 36"
  by (simp add: add_cube_def addFace_def)

lemma cubes_loop_eq: "cubes_loop bs vs = vs @ concat (map (\<lambda>c. add_cube c []) bs)"
proof (induction bs arbitrary: vs)
  case Nil
  then show ?case by simp
next
  case (Cons c bs)
  show ?case by (simp add: Cons.IH) (subst add_cube_append, simp)
qed

lemma length_shape_vertices: "length (shape_vertices bs) = 36 * length bs"
  by (induction bs) (simp_all add: shape_vertices_def cubes_loop_eq length_add_cube)

lemma corner_in_cube:
  "\<lparr>position = vec3_add (Vec3 1 1 1) c, texCoord = Vec2 1 1\<rparr> \<in> set (add_cube c [])"
  "\<lparr>position = vec3_add (Vec3 (-1) (-1) (-1)) c, texCoord = Vec2 1 0\<rparr> \<in> set (add_cube c [])"
  by (simp_all add: add_cube_def addFace_def)

lemma corner_in_shape:
  assumes "c \<in> set bs"
  shows "\<lparr>position = vec3_add (Vec3 1 1 1) c, texCoord = Vec2 1 1\<rparr> \<in> set (shape_vertices bs)"
    and "\<lparr>position = vec3_add (Vec3 (-1) (-1) (-1)) c, texCoord = Vec2 1 0\<rparr> \<in> set (shape_vertices bs)"
  using assms corner_in_cube [of c] by (auto simp: shape_vertices_def cubes_loop_eq)

lemma vec3_le_refl [simp]: "vec3_le a a"
  by (simp add: vec3_le_def)

lemma vec3_le_trans: "vec3_le a b \<Longrightarrow> vec3_le b c \<Longrightarrow> vec3_le a c"
  by (auto simp: vec3_le_def)

lemma bounding_loop_encloses:
  "vec3_le (bb_min (bounding_loop vs bb)) (bb_min bb) \<and>
   vec3_le (bb_max bb) (bb_max (bounding_loop vs bb)) \<and>
   (\<forall>v \<in> set vs. vec3_le (bb_min (bounding_loop vs bb)) (position v) \<and>
                  vec3_le (position v) (bb_max (bounding_loop vs bb)))"
proof (induction vs arbitrary: bb)
  case Nil
  then show ?case by simp
next
  case (Cons v vs)
  define bb' where "bb' = \<lparr>bb_min = vec3_min (bb_min bb) (position v),
                           bb_max = vec3_max (bb_max bb) (position v)\<rparr>"
  have a: "vec3_le (bb_min bb') (bb_min bb)" "vec3_le (bb_min bb') (position v)"
    "vec3_le (bb_max bb) (bb_max bb')" "vec3_le (position v) (bb_max bb')"
    by (simp_all add: bb'_def vec3_le_def vec3_min_def vec3_max_def)
  have step: "bounding_loop (v # vs) bb = bounding_loop vs bb'"
    by (simp add: bb'_def)
  note ih = Cons.IH [of bb']
  have lo: "vec3_le (bb_min (bounding_loop vs bb')) (bb_min bb')"
    and hi: "vec3_le (bb_max bb') (bb_max (bounding_loop vs bb'))"
    and rest: "\<And>w. w \<in> set vs \<Longrightarrow> vec3_le (bb_min (bounding_loop vs bb')) (position w) \<and>
                  vec3_le (position w) (bb_max (bounding_loop vs bb'))"
    using ih by blast+
  have 1: "vec3_le (bb_min (bounding_loop vs bb')) (bb_min bb)"
    by (rule vec3_le_trans [OF lo a(1)])
  have 2: "vec3_le (bb_max bb) (bb_max (bounding_loop vs bb'))"
    by (rule vec3_le_trans [OF a(3) hi])
  have 3: "vec3_le (bb_min (bounding_loop vs bb')) (position v)"
    by (rule vec3_le_trans [OF lo a(2)])
  have 4: "vec3_le (position v) (bb_max (bounding_loop vs bb'))"
    by (rule vec3_le_trans [OF a(4) hi])
  show ?case
    unfolding step using 1 2 3 4 rest by simp
qed

lemma box_contains_unit_cube:
  assumes "Vec3 0 0 0 \<in> set bs"
  shows "vec3_le (bb_min (shape_box (shape_vertices bs))) (Vec3 (-1) (-1) (-1))"
    and "vec3_le (Vec3 1 1 1) (bb_max (shape_box (shape_vertices bs)))"
proof -
  let ?vs = "shape_vertices bs"
  have "\<lparr>position = Vec3 1 1 1, texCoord = Vec2 1 1\<rparr> \<in> set ?vs"
    using corner_in_shape(1) [OF assms] by (simp add: vec3_add_def)
  then have "vec3_le (position \<lparr>position = Vec3 1 1 1, texCoord = Vec2 1 1\<rparr>) (bb_max (shape_box ?vs))"
    unfolding shape_box_def using bounding_loop_encloses by blast
  then show "vec3_le (Vec3 1 1 1) (bb_max (shape_box ?vs))" by simp
  have "\<lparr>position = Vec3 (-1) (-1) (-1), texCoord = Vec2 1 0\<rparr> \<in> set ?vs"
    using corner_in_shape(2) [OF assms] by (simp add: vec3_add_def)
  then have "vec3_le (bb_min (shape_box ?vs)) (position \<lparr>position = Vec3 (-1) (-1) (-1), texCoord = Vec2 1 0\<rparr>)"
    unfolding shape_box_def using bounding_loop_encloses by blast
  then show "vec3_le (bb_min (shape_box ?vs)) (Vec3 (-1) (-1) (-1))" by simp
qed

lemma initializeShape_eq:
  assumes "segments_loop coin segs (initial_walk g) = Inr st"
  shows "initializeShape coin segs g =
     Inr (\<lparr>boundingBox = shape_box (shape_vertices (blocks st)),
           mesh = \<lparr>vertexCount = length (shape_vertices (blocks st)), vertexSize = 20,
                   vertexAttributes = [(3, GL_FLOAT, 0), (2, GL_FLOAT, 12)],
                   vertexData = shape_vertices (blocks st)\<rparr>\<rparr>, generator st)"
  using assms by (simp add: initializeShape_def Let_def)

lemma walk_prefix:
  "\<exists>st. segments_loop coin (take k segs) (initial_walk g) = Inr st \<and> walk_ok st
     \<and> length (blocks st) = sum_list (map nat (take k segs))"
  using segments_loop_ok [OF initial_walk_ok, of coin "take k segs" g]
  by (auto simp: initial_walk_def)

lemma walk_total:
  "\<exists>st. segments_loop coin segs (initial_walk g) = Inr st \<and> walk_ok st
     \<and> length (blocks st) = sum_list (map nat segs) \<and> generator st = g + 2 * length segs"
  using segments_loop_ok [OF initial_walk_ok, of coin segs g]
  by (auto simp: initial_walk_def)

lemma walk_step:
  assumes "k < length segs" and "segments_loop coin (take k segs) (initial_walk g) = Inr sk"
    and "segment_body coin (segs ! k) sk = Inr sk'"
  shows "segments_loop coin (take (Suc k) segs) (initial_walk g) = Inr sk'"
  using assms by (simp add: take_Suc_conv_app_nth segments_loop_append)

lemma walk_rest:
  assumes "segments_loop coin (take k segs) (initial_walk g) = Inr sk"
  shows "segments_loop coin segs (initial_walk g) = segments_loop coin (drop k segs) sk"
proof -
  have "segments_loop coin (take k segs @ drop k segs) (initial_walk g) =
          segments_loop coin (drop k segs) sk"
    unfolding segments_loop_append using assms by simp
  then show ?thesis by simp
qed

text \<open>
  C6. Throughout the walk the direction is one of the three one-hot patterns 1, 2 and 4, so
  the \<open>default\<close> branch of the switch is never taken and \<open>initializeShape\<close> does not fail;
  and the direction chosen at the end of a segment differs from the one the segment used.
  Here \<open>st\<close> is the state before segment \<open>k\<close> and \<open>st'\<close> the state after it.
\<close>

theorem direction_one_hot_and_turns:
  "(\<exists>st. segments_loop coin (take k segments) (initial_walk g) = Inr st \<and>
         direction st \<in> {1, 2, 4} \<and>
         (k < length segments \<longrightarrow>
            (\<exists>st'. segment_body coin (segments ! k) st = Inr st' \<and>
                   segments_loop coin (take (Suc k) segments) (initial_walk g) = Inr st' \<and>
                   direction st' \<in> {1, 2, 4} \<and> direction st' \<noteq> direction st))) \<and>
   (\<forall>e. initializeShape coin segments g \<noteq> Inl e)"
proof -
  obtain st where st: "segments_loop coin (take k segments) (initial_walk g) = Inr st" "walk_ok st"
    using walk_prefix by blast
  obtain st' where st': "segment_body coin (segments ! k) st = Inr st'" "walk_ok st'"
    "direction st' \<noteq> direction st"
    using segment_body_ok [OF st(2)] by blast
  have "k < length segments \<Longrightarrow> segments_loop coin (take (Suc k) segments) (initial_walk g) = Inr st'"
    using walk_step st(1) st'(1) by blast
  moreover obtain sf where "segments_loop coin segments (initial_walk g) = Inr sf"
    using walk_total by blast
  then have "\<forall>e. initializeShape coin segments g \<noteq> Inl e"
    by (simp add: initializeShape_eq)
  ultimately show ?thesis
    using st st' by (auto simp: walk_ok_def one_hot_def)
qed

theorem direction_one_hot_and_turns_witness:
  "(1::nat) < length [3, 3, 2, 3 :: int] \<and>
   (\<exists>st st'. segments_loop even (take 1 [3, 3, 2, 3]) (initial_walk 0) = Inr st \<and>
      segment_body even ([3, 3, 2, 3] ! 1) st = Inr st' \<and>
      direction st \<in> {1, 2, 4} \<and> direction st' \<in> {1, 2, 4} \<and> direction st' \<noteq> direction st)"
  using direction_one_hot_and_turns [of even 1 "[3, 3, 2, 3]" 0] by auto

lemma initial_walk_even: "walk_even (initial_walk g)"
  by (simp add: walk_even_def initial_walk_def even_vec_def vec3_splat_def)

lemma first_block_origin:
  assumes "segments_loop coin segs (initial_walk g) = Inr st" and "blocks st \<noteq> []"
  shows "blocks st ! 0 = Vec3 0 0 0"
  using segments_loop_first [OF initial_walk_ok assms]
  by (simp add: initial_walk_def vec3_splat_def)

lemma sum_list_nat:
  assumes "\<forall>L \<in> set segs. 0 \<le> L"
  shows "int (sum_list (map nat segs)) = sum_list segs"
  using assms by (induction segs) simp_all

text \<open>The blocks of segment \<open>k\<close>, inside the block list of the whole walk.\<close>

lemma segment_blocks:
  assumes k: "k < length segs"
    and sk: "segments_loop coin (take k segs) (initial_walk g) = Inr sk"
    and st: "segments_loop coin segs (initial_walk g) = Inr st"
    and j: "j < nat (segs ! k)"
  shows "blocks st ! (length (blocks sk) + j) = block_at (center sk) (segment_step sk) j"
proof -
  obtain s0 where "segments_loop coin (take k segs) (initial_walk g) = Inr s0" "walk_ok s0"
    using walk_prefix by blast
  with sk have ok: "walk_ok sk" by simp
  obtain sk' where b: "segment_body coin (segs ! k) sk = Inr sk'" "walk_ok sk'"
    "blocks sk' = blocks sk @ map (block_at (center sk) (segment_step sk)) [0..<nat (segs ! k)]"
    using segment_body_ok [OF ok] by blast
  have "segments_loop coin (take (Suc k) segs) (initial_walk g) = Inr sk'"
    by (rule walk_step [OF k sk b(1)])
  then have "segments_loop coin (drop (Suc k) segs) sk' = Inr st"
    using walk_rest st by metis
  from segments_loop_ok [OF b(2), of coin "drop (Suc k) segs"] this
  have p: "take (length (blocks sk')) (blocks st) = blocks sk'" by auto
  have lt: "length (blocks sk) + j < length (blocks sk')"
    using b(3) j by simp
  have "blocks st ! (length (blocks sk) + j) = take (length (blocks sk')) (blocks st) ! (length (blocks sk) + j)"
    using lt by simp
  also have "\<dots> = blocks sk' ! (length (blocks sk) + j)" by (simp only: p)
  also have "\<dots> = block_at (center sk) (segment_step sk) j"
    using j by (simp add: b(3) nth_append)
  finally show ?thesis .
qed

text \<open>
  C10. Every cube centre has three even integer coordinates. When at least one cube is placed,
  the first one is centred at the origin, and the bounding box of the shape contains the cube
  from \<open>(-1, -1, -1)\<close> to \<open>(1, 1, 1)\<close>.
\<close>

theorem cube_centers_even:
  "\<exists>st sh g'. segments_loop coin segments (initial_walk g) = Inr st \<and>
      initializeShape coin segments g = Inr (sh, g') \<and>
      vertexData (mesh sh) = shape_vertices (blocks st) \<and>
      (\<forall>b \<in> set (blocks st). even_vec b) \<and>
      (blocks st \<noteq> [] \<longrightarrow>
         blocks st ! 0 = Vec3 0 0 0 \<and>
         vec3_le (bb_min (boundingBox sh)) (Vec3 (-1) (-1) (-1)) \<and>
         vec3_le (Vec3 1 1 1) (bb_max (boundingBox sh)))"
proof -
  obtain st where st: "segments_loop coin segments (initial_walk g) = Inr st"
    using walk_total by blast
  have ev: "\<forall>b \<in> set (blocks st). even_vec b"
    using segments_loop_even [OF initial_walk_ok initial_walk_even st] by (simp add: walk_even_def)
  have box: "vec3_le (bb_min (shape_box (shape_vertices (blocks st)))) (Vec3 (-1) (-1) (-1)) \<and>
             vec3_le (Vec3 1 1 1) (bb_max (shape_box (shape_vertices (blocks st))))"
    and first: "blocks st ! 0 = Vec3 0 0 0" if ne: "blocks st \<noteq> []"
  proof -
    show f: "blocks st ! 0 = Vec3 0 0 0" by (rule first_block_origin [OF st ne])
    have "blocks st ! 0 \<in> set (blocks st)" using ne by simp
    with f have "Vec3 0 0 0 \<in> set (blocks st)" by simp
    then show "vec3_le (bb_min (shape_box (shape_vertices (blocks st)))) (Vec3 (-1) (-1) (-1)) \<and>
             vec3_le (Vec3 1 1 1) (bb_max (shape_box (shape_vertices (blocks st))))"
      using box_contains_unit_cube by blast
  qed
  show ?thesis
    using st ev box first by (simp add: initializeShape_eq [OF st])
qed

theorem cube_centers_even_witness:
  "\<exists>st sh g'. segments_loop even [2, 1] (initial_walk 0) = Inr st \<and>
      initializeShape even [2, 1] 0 = Inr (sh, g') \<and>
      blocks st = [Vec3 0 0 0, Vec3 0 2 0, Vec3 0 4 0] \<and>
      Vec3 0 2 0 \<in> set (blocks st) \<and> even_vec (Vec3 0 2 0) \<and> blocks st \<noteq> [] \<and>
      blocks st ! 0 = Vec3 0 0 0 \<and>
      vec3_le (bb_min (boundingBox sh)) (Vec3 (-1) (-1) (-1)) \<and>
      vec3_le (Vec3 1 1 1) (bb_max (boundingBox sh))"
proof -
  have e: "segments_loop even [2, 1] (initial_walk 0) =
      Inr \<lparr>blocks = [Vec3 0 0 0, Vec3 0 2 0, Vec3 0 4 0], center = Vec3 0 4 2, direction = 2,
           side = 1, generator = 4\<rparr>"
    by (simp add: initial_walk_def segment_body_def segment_step_def place_blocks.simps
        direction_vec_def vec3_splat_def vec3_add_def vec3_scale_def switch_direction_def
        zero_or_one_def)
  show ?thesis
    using cube_centers_even [of even "[2, 1]" 0] unfolding e by auto
qed

lemma vec3_scale_scale: "vec3_scale a (vec3_scale b v) = vec3_scale (a * b) v"
  by (simp add: vec3_scale_def)

lemma initial_walk_within: "even_within 0 (center (initial_walk g))"
  by (simp add: even_within_def even_vec_def initial_walk_def vec3_splat_def)

text \<open>While the walk stays within \<open>2 ^ 25\<close>, the centre is an even integer vector no
  farther from the origin than twice the number of cubes placed.\<close>

lemma walk_center_within:
  assumes "walk_ok st" and "even_within m (center st)"
    and "m + 2 * int (sum_list (map nat segs)) \<le> 2 ^ 25"
    and "segments_loop coin segs st = Inr st'"
  shows "even_within (m + 2 * int (sum_list (map nat segs))) (center st')"
  using assms
proof (induction segs arbitrary: st m)
  case Nil
  then show ?case by simp
next
  case (Cons len rest)
  from segment_body_ok [OF Cons.prems(1), of coin len]
  obtain st1 where s1: "segment_body coin len st = Inr st1" "walk_ok st1"
    "center st1 = block_at (center st) (segment_step st) (nat len)"
    by blast
  have b: "m + 2 * int (nat len) \<le> 2 ^ 25" using Cons.prems(3) by simp
  have w1: "even_within (m + 2 * int (nat len)) (center st1)"
    unfolding s1(3)
    using block_at_exact [OF Cons.prems(2) segment_step_axis [OF Cons.prems(1)] b] by blast
  have b1: "m + 2 * int (nat len) + 2 * int (sum_list (map nat rest)) \<le> 2 ^ 25"
    using Cons.prems(3) by simp
  have r: "segments_loop coin rest st1 = Inr st'"
    using Cons.prems(4) s1(1) by simp
  have eq: "m + 2 * int (nat len) + 2 * int (sum_list (map nat rest)) =
        m + 2 * int (sum_list (map nat (len # rest)))"
    by simp
  from Cons.IH [OF s1(2) w1 b1 r] show ?case by (simp only: eq)
qed

lemma sum_take_nth_le:
  assumes "k < length segs"
  shows "sum_list (map nat (take k segs)) + nat (segs ! k) \<le> sum_list (map nat segs)"
proof -
  have "segs = take k segs @ segs ! k # drop (Suc k) segs"
    using assms by (rule id_take_nth_drop)
  then have "sum_list (map nat segs) =
      sum_list (map nat (take k segs @ segs ! k # drop (Suc k) segs))"
    by simp
  then show ?thesis by simp
qed

text \<open>The cubes of segment \<open>k\<close> when the walk stays within \<open>2 ^ 25\<close>.\<close>

lemma segment_blocks_exact:
  assumes k: "k < length segs"
    and sk: "segments_loop coin (take k segs) (initial_walk g) = Inr sk"
    and st: "segments_loop coin segs (initial_walk g) = Inr st"
    and bound: "2 * int (sum_list (map nat segs)) \<le> 2 ^ 25"
    and j: "j < nat (segs ! k)"
  shows "blocks st ! (length (blocks sk) + j) =
           vec3_plus (center sk) (vec3_scale (real j) (segment_step sk))"
    and "Suc j < nat (segs ! k) \<Longrightarrow>
         blocks st ! (length (blocks sk) + Suc j) =
           vec3_plus (blocks st ! (length (blocks sk) + j)) (segment_step sk)"
proof -
  define m where "m = 2 * int (sum_list (map nat (take k segs)))"
  obtain s0 where "segments_loop coin (take k segs) (initial_walk g) = Inr s0" "walk_ok s0"
    using walk_prefix by blast
  with sk have ok: "walk_ok sk" by simp
  note le = sum_take_nth_le [OF k]
  have "0 + 2 * int (sum_list (map nat (take k segs))) \<le> 2 ^ 25"
    using le bound by linarith
  from walk_center_within [OF initial_walk_ok initial_walk_within this sk]
  have cw: "even_within m (center sk)" by (simp add: m_def)
  note ax = segment_step_axis [OF ok]
  have b: "m + 2 * int j \<le> 2 ^ 25" using j le bound by (simp add: m_def)
  from block_at_exact [OF cw ax b]
  have e: "block_at (center sk) (segment_step sk) j =
             vec3_plus (center sk) (vec3_scale (real j) (segment_step sk))"
    and w: "even_within (m + 2 * int j) (block_at (center sk) (segment_step sk) j)"
    by blast+
  have at: "blocks st ! (length (blocks sk) + j) = block_at (center sk) (segment_step sk) j"
    by (rule segment_blocks [OF k sk st j])
  show "blocks st ! (length (blocks sk) + j) =
           vec3_plus (center sk) (vec3_scale (real j) (segment_step sk))"
    unfolding at by (rule e)
  show "blocks st ! (length (blocks sk) + Suc j) =
           vec3_plus (blocks st ! (length (blocks sk) + j)) (segment_step sk)"
    if n: "Suc j < nat (segs ! k)"
  proof -
    have b2: "m + 2 * int j + 2 \<le> 2 ^ 25" using n le bound by (simp add: m_def)
    have "blocks st ! (length (blocks sk) + Suc j) =
            block_at (center sk) (segment_step sk) (Suc j)"
      by (rule segment_blocks [OF k sk st n])
    also have "\<dots> = vec3_add (block_at (center sk) (segment_step sk) j) (segment_step sk)"
      by (rule block_at_step)
    also have "\<dots> = vec3_plus (block_at (center sk) (segment_step sk) j) (segment_step sk)"
      by (rule even_within_step(1) [OF w ax b2])
    finally show ?thesis unfolding at .
  qed
qed

text \<open>
  C5, as stated, fails: in a segment of 16777218 cubes the centre reaches \<open>2 ^ 25\<close> at cube
  16777216, and there \<open>center += d\<close> adds 2 in \<open>float\<close> and rounds back to \<open>2 ^ 25\<close>. Cube
  16777217 has the centre of cube 16777216: the two are not 2 apart.
\<close>

theorem adjacent_centres_counterexample:
  "\<not> isl (segments_loop even [16777218] (initial_walk 0)) \<and>
   blocks (projr (segments_loop even [16777218] (initial_walk 0))) ! 16777216 =
     Vec3 0 33554432 0 \<and>
   blocks (projr (segments_loop even [16777218] (initial_walk 0))) ! 16777217 =
     Vec3 0 33554432 0"
proof -
  obtain st where st: "segments_loop even [16777218] (initial_walk 0) = Inr st"
    using walk_total by blast
  have sk: "segments_loop even (take 0 [16777218]) (initial_walk 0) = Inr (initial_walk 0)"
    by simp
  have i: "length (blocks (initial_walk 0)) = 0" "center (initial_walk 0) = Vec3 0 0 0"
    "segment_step (initial_walk 0) = Vec3 0 2 0"
    by (simp_all add: initial_walk_def vec3_splat_def segment_step_def direction_vec_one_hot
        vec3_scale_def)
  have at: "blocks st ! j = block_at (Vec3 0 0 0) (Vec3 0 2 0) j" if "j < 16777218" for j
    using segment_blocks [OF _ sk st, of j] that by (simp add: i)
  have w: "even_within 0 (Vec3 0 0 0)"
    by (simp add: even_within_def even_vec_def)
  have ax: "Vec3 0 2 0 \<in> axis_steps" by (simp add: axis_steps_def)
  have "block_at (Vec3 0 0 0) (Vec3 0 2 0) 16777216 =
          vec3_plus (Vec3 0 0 0) (vec3_scale (real 16777216) (Vec3 0 2 0))"
    using block_at_exact [OF w ax, of 16777216] by simp
  then have a: "block_at (Vec3 0 0 0) (Vec3 0 2 0) 16777216 = Vec3 0 33554432 0"
    by (simp add: vec3_plus_def vec3_scale_def)
  have "(16777217::nat) = Suc 16777216" by simp
  then have "block_at (Vec3 0 0 0) (Vec3 0 2 0) 16777217 =
          vec3_add (block_at (Vec3 0 0 0) (Vec3 0 2 0) 16777216) (Vec3 0 2 0)"
    by (simp only: block_at_step)
  then have b: "block_at (Vec3 0 0 0) (Vec3 0 2 0) 16777217 = Vec3 0 33554432 0"
    unfolding a by (simp add: vec3_add_def round_float_2p25_2)
  show ?thesis
    unfolding st using at [of 16777216] at [of 16777217] a b by simp
qed

text \<open>
  C5, amended. For segment lengths that are not negative, the walk places as many cubes as
  the lengths sum to, and the mesh holds 36 vertices for each cube. When the lengths sum to
  at most \<open>2 ^ 24\<close>, so that no centre passes \<open>2 ^ 25\<close>: the cubes of segment \<open>k\<close> follow
  the cubes of the segments before it; with \<open>sk\<close> the state before the segment, whose
  direction is 1, 2 or 4 and whose side is 1 or -1, cube \<open>j\<close> of the segment lies at the
  segment's first centre plus \<open>2 * side * j\<close> times the unit vector of the direction, and
  the cube after it lies at its centre plus \<open>2 * side\<close> times that unit vector: 2 units
  along the axis of the segment, exactly.
\<close>

theorem block_and_vertex_counts:
  assumes "\<forall>L \<in> set segments. 0 \<le> L"
  shows "\<exists>st sh g'. segments_loop coin segments (initial_walk g) = Inr st \<and>
      initializeShape coin segments g = Inr (sh, g') \<and>
      vertexData (mesh sh) = shape_vertices (blocks st) \<and>
      int (length (blocks st)) = sum_list segments \<and>
      int (vertexCount (mesh sh)) = 36 * sum_list segments \<and>
      length (vertexData (mesh sh)) = vertexCount (mesh sh) \<and>
      (sum_list segments \<le> 2 ^ 24 \<longrightarrow>
        (\<forall>k < length segments.
           \<exists>sk. segments_loop coin (take k segments) (initial_walk g) = Inr sk \<and>
             int (length (blocks sk)) = sum_list (take k segments) \<and>
             direction sk \<in> {1, 2, 4} \<and> (side sk = 1 \<or> side sk = - 1) \<and>
             (\<forall>j. int j < segments ! k \<longrightarrow>
                blocks st ! (length (blocks sk) + j) =
                  vec3_plus (center sk)
                    (vec3_scale (2 * side sk * real j) (axis_unit (direction sk)))) \<and>
             (\<forall>j. int j + 1 < segments ! k \<longrightarrow>
                blocks st ! (length (blocks sk) + j + 1) =
                  vec3_plus (blocks st ! (length (blocks sk) + j))
                    (vec3_scale (2 * side sk) (axis_unit (direction sk))))))"
proof -
  obtain st where st: "segments_loop coin segments (initial_walk g) = Inr st"
    "length (blocks st) = sum_list (map nat segments)"
    using walk_total by blast
  have len: "int (length (blocks st)) = sum_list segments"
    using st(2) sum_list_nat [OF assms] by simp
  have seg: "\<exists>sk. segments_loop coin (take k segments) (initial_walk g) = Inr sk \<and>
             int (length (blocks sk)) = sum_list (take k segments) \<and>
             direction sk \<in> {1, 2, 4} \<and> (side sk = 1 \<or> side sk = - 1) \<and>
             (\<forall>j. int j < segments ! k \<longrightarrow>
                blocks st ! (length (blocks sk) + j) =
                  vec3_plus (center sk)
                    (vec3_scale (2 * side sk * real j) (axis_unit (direction sk)))) \<and>
             (\<forall>j. int j + 1 < segments ! k \<longrightarrow>
                blocks st ! (length (blocks sk) + j + 1) =
                  vec3_plus (blocks st ! (length (blocks sk) + j))
                    (vec3_scale (2 * side sk) (axis_unit (direction sk))))"
    if k: "k < length segments" and small: "sum_list segments \<le> 2 ^ 24" for k
  proof -
    obtain sk where sk: "segments_loop coin (take k segments) (initial_walk g) = Inr sk"
      "walk_ok sk" "length (blocks sk) = sum_list (map nat (take k segments))"
      using walk_prefix by blast
    have "\<forall>L \<in> set (take k segments). 0 \<le> L"
      using assms by (meson in_set_takeD)
    then have l: "int (length (blocks sk)) = sum_list (take k segments)"
      using sk(3) sum_list_nat by simp
    have bound: "2 * int (sum_list (map nat segments)) \<le> 2 ^ 25"
      using small sum_list_nat [OF assms] by simp
    have dir: "direction sk = 1 \<or> direction sk = 2 \<or> direction sk = 4"
      and sd: "side sk = 1 \<or> side sk = - 1"
      using sk(2) by (simp_all add: walk_ok_def one_hot_def)
    from dir have u: "segment_step sk = vec3_scale (2 * side sk) (axis_unit (direction sk))"
      by (elim disjE) (simp_all add: segment_step_def direction_vec_one_hot axis_unit_def)
    have at: "blocks st ! (length (blocks sk) + j) =
                  vec3_plus (center sk)
                    (vec3_scale (2 * side sk * real j) (axis_unit (direction sk)))"
      if "int j < segments ! k" for j
    proof -
      have "j < nat (segments ! k)" using that by simp
      from segment_blocks_exact(1) [OF k sk(1) st(1) bound this]
      show ?thesis by (simp add: u vec3_scale_scale mult.commute)
    qed
    have adj: "blocks st ! (length (blocks sk) + j + 1) =
                  vec3_plus (blocks st ! (length (blocks sk) + j))
                    (vec3_scale (2 * side sk) (axis_unit (direction sk)))"
      if "int j + 1 < segments ! k" for j
    proof -
      have "j < nat (segments ! k)" and "Suc j < nat (segments ! k)" using that by simp_all
      from segment_blocks_exact(2) [OF k sk(1) st(1) bound this]
      show ?thesis by (simp add: u)
    qed
    have "direction sk \<in> {1, 2, 4}" using dir by auto
    then show ?thesis
      using sk(1) l sd at adj by blast
  qed
  show ?thesis
    using st(1) len seg
    by (simp add: initializeShape_eq [OF st(1)] length_shape_vertices)
qed

theorem block_and_vertex_counts_witness:
  "(0::int) \<le> 2 \<and> sum_list [2, 2 :: int] \<le> 2 ^ 24 \<and> (1::nat) < length [2, 2 :: int] \<and>
   int 0 + 1 < [2, 2 :: int] ! 1 \<and>
   (\<exists>st sh g'. segments_loop even [2, 2] (initial_walk 0) = Inr st \<and>
      initializeShape even [2, 2] 0 = Inr (sh, g') \<and>
      length (blocks st) = 4 \<and> vertexCount (mesh sh) = 144 \<and>
      length (vertexData (mesh sh)) = 144 \<and>
      blocks st = [Vec3 0 0 0, Vec3 0 2 0, Vec3 0 4 0, Vec3 0 4 2] \<and>
      blocks st ! 2 = Vec3 0 4 0 \<and> blocks st ! 3 = Vec3 0 4 2)"
proof -
  have h: "\<forall>L \<in> set [2, 2 :: int]. 0 \<le> L" by simp
  have ev: "segments_loop even [2, 2] (initial_walk 0) =
      Inr \<lparr>blocks = [Vec3 0 0 0, Vec3 0 2 0, Vec3 0 4 0, Vec3 0 4 2], center = Vec3 0 4 4,
           direction = 2, side = 1, generator = 4\<rparr>"
    by (simp add: initial_walk_def segment_body_def segment_step_def place_blocks.simps
        direction_vec_one_hot vec3_splat_def vec3_add_def vec3_scale_def switch_direction_def
        zero_or_one_def)
  have small: "sum_list [2, 2 :: int] \<le> 2 ^ 24" and k1: "(1::nat) < length [2, 2 :: int]"
    by simp_all
  from block_and_vertex_counts [OF h, of even 0]
  obtain st sh g' where r: "segments_loop even [2, 2] (initial_walk 0) = Inr st"
      "initializeShape even [2, 2] 0 = Inr (sh, g')"
      "vertexData (mesh sh) = shape_vertices (blocks st)"
      "int (length (blocks st)) = sum_list [2, 2]"
      "int (vertexCount (mesh sh)) = 36 * sum_list [2, 2]"
      "length (vertexData (mesh sh)) = vertexCount (mesh sh)"
      "sum_list [2, 2 :: int] \<le> 2 ^ 24 \<longrightarrow>
        (\<forall>k < length [2, 2 :: int].
           \<exists>sk. segments_loop even (take k [2, 2]) (initial_walk 0) = Inr sk \<and>
             int (length (blocks sk)) = sum_list (take k [2, 2]) \<and>
             direction sk \<in> {1, 2, 4} \<and> (side sk = 1 \<or> side sk = - 1) \<and>
             (\<forall>j. int j < [2, 2] ! k \<longrightarrow>
                blocks st ! (length (blocks sk) + j) =
                  vec3_plus (center sk)
                    (vec3_scale (2 * side sk * real j) (axis_unit (direction sk)))) \<and>
             (\<forall>j. int j + 1 < [2, 2] ! k \<longrightarrow>
                blocks st ! (length (blocks sk) + j + 1) =
                  vec3_plus (blocks st ! (length (blocks sk) + j))
                    (vec3_scale (2 * side sk) (axis_unit (direction sk)))))"
    by (elim exE conjE) (rule that, assumption+)
  from r(7) [rule_format, OF small k1]
  obtain sk where sk: "segments_loop even (take 1 [2, 2]) (initial_walk 0) = Inr sk"
      "\<forall>j. int j < [2, 2] ! 1 \<longrightarrow>
                blocks st ! (length (blocks sk) + j) =
                  vec3_plus (center sk)
                    (vec3_scale (2 * side sk * real j) (axis_unit (direction sk)))"
      "\<forall>j. int j + 1 < [2, 2] ! 1 \<longrightarrow>
              blocks st ! (length (blocks sk) + j + 1) =
                vec3_plus (blocks st ! (length (blocks sk) + j))
                  (vec3_scale (2 * side sk) (axis_unit (direction sk)))"
    by (elim exE conjE) (rule that, assumption+)
  have e: "segments_loop even (take 1 [2, 2]) (initial_walk 0) =
      Inr \<lparr>blocks = [Vec3 0 0 0, Vec3 0 2 0], center = Vec3 0 4 0, direction = 1, side = 1,
           generator = 2\<rparr>"
    by (simp add: initial_walk_def segment_body_def segment_step_def place_blocks.simps
        direction_vec_one_hot vec3_splat_def vec3_add_def vec3_scale_def switch_direction_def
        zero_or_one_def)
  from sk(1) have v: "sk = \<lparr>blocks = [Vec3 0 0 0, Vec3 0 2 0], center = Vec3 0 4 0,
      direction = 1, side = 1, generator = 2\<rparr>"
    unfolding e by simp
  have i2: "length (blocks sk) + 0 = 2" "length (blocks sk) + 0 + 1 = 3"
    by (simp_all add: v)
  have "blocks st ! (length (blocks sk) + 0) =
      vec3_plus (center sk) (vec3_scale (2 * side sk * real 0) (axis_unit (direction sk)))"
    by (rule sk(2) [rule_format, of 0]) simp
  then have a: "blocks st ! 2 = Vec3 0 4 0"
    unfolding i2 by (simp add: v vec3_plus_def vec3_scale_def axis_unit_def)
  have "blocks st ! (length (blocks sk) + 0 + 1) =
      vec3_plus (blocks st ! (length (blocks sk) + 0))
        (vec3_scale (2 * side sk) (axis_unit (direction sk)))"
    by (rule sk(3) [rule_format, of 0]) simp
  then have b: "blocks st ! 3 = Vec3 0 4 2"
    unfolding i2 a by (simp add: v vec3_plus_def vec3_scale_def axis_unit_def)
  from r(1) have bs: "blocks st = [Vec3 0 0 0, Vec3 0 2 0, Vec3 0 4 0, Vec3 0 4 2]"
    unfolding ev by auto
  from r(4) have "length (blocks st) = 4" by simp
  moreover from r(5) have "vertexCount (mesh sh) = 144" by simp
  ultimately show ?thesis using r(1,2,6) a b bs by simp
qed

text \<open>
  C4, as stated, fails: the walk starts with direction 2, whose vector is the second axis
  \<open>(0, 1, 0)\<close> and not the third, and the second cube of a first segment of length 2 lies at
  \<open>(0, 2, 0)\<close>.
\<close>

theorem first_segment_axis_counterexample:
  "direction_vec (direction (initial_walk 0)) \<noteq> Vec3 0 0 1 \<and>
   segments_loop even [2] (initial_walk 0) =
     Inr \<lparr>blocks = [Vec3 0 0 0, Vec3 0 2 0], center = Vec3 0 4 0, direction = 1, side = 1,
          generator = 2\<rparr>"
  by (simp add: initial_walk_def segment_body_def segment_step_def place_blocks.simps
        direction_vec_def vec3_splat_def vec3_add_def vec3_scale_def switch_direction_def
        zero_or_one_def)

text \<open>
  C4, amended. The walk starts with its centre at the origin, direction 2, which is bit 1 and
  so the Y axis with bit 2 for X, bit 1 for Y and bit 0 for Z, and side +1. For a first
  segment of length at least 1 and at most \<open>2 ^ 24\<close>, cube \<open>j\<close> of that segment lies at
  \<open>(0, 2 j, 0)\<close>: the first segment advances along the Y axis in the positive direction.
  (Beyond \<open>2 ^ 25\<close> the centre no longer advances, since \<open>center += d\<close> rounds.)
\<close>

theorem first_segment_along_Y:
  "initial_walk g = \<lparr>blocks = [], center = Vec3 0 0 0, direction = 2, side = 1, generator = g\<rparr> \<and>
   direction_vec (direction (initial_walk g)) = Vec3 0 1 0 \<and>
   segment_step (initial_walk g) = Vec3 0 2 0 \<and>
   (1 \<le> L \<and> L \<le> 2 ^ 24 \<longrightarrow>
      (\<exists>st. segments_loop coin (L # rest) (initial_walk g) = Inr st \<and>
         nat L \<le> length (blocks st) \<and>
         (\<forall>j < nat L. blocks st ! j = Vec3 0 (2 * real j) 0)))"
proof -
  have i: "initial_walk g = \<lparr>blocks = [], center = Vec3 0 0 0, direction = 2, side = 1, generator = g\<rparr>"
    by (simp add: initial_walk_def vec3_splat_def)
  have d: "direction_vec (direction (initial_walk g)) = Vec3 0 1 0"
    by (simp add: i direction_vec_one_hot)
  have s: "segment_step (initial_walk g) = Vec3 0 2 0"
    by (simp add: i segment_step_def direction_vec_one_hot vec3_scale_def)
  obtain st where st: "segments_loop coin (L # rest) (initial_walk g) = Inr st"
    "length (blocks st) = sum_list (map nat (L # rest))"
    using walk_total by blast
  have "blocks st ! j = Vec3 0 (2 * real j) 0" if "j < nat L" and "L \<le> 2 ^ 24" for j
  proof -
    have "blocks st ! (length (blocks (initial_walk g)) + j) =
        block_at (center (initial_walk g)) (segment_step (initial_walk g)) j"
      by (rule segment_blocks [where k = 0 and segs = "L # rest" and coin = coin and g = g])
        (use st(1) that in simp_all)
    then have at: "blocks st ! j = block_at (Vec3 0 0 0) (Vec3 0 2 0) j"
      unfolding s by (simp add: i)
    have w: "even_within 0 (Vec3 0 0 0)" by (simp add: even_within_def even_vec_def)
    have ax: "Vec3 0 2 0 \<in> axis_steps" by (simp add: axis_steps_def)
    have "0 + 2 * int j \<le> 2 ^ 25" using that by simp
    from block_at_exact [OF w ax this]
    have "block_at (Vec3 0 0 0) (Vec3 0 2 0) j =
            vec3_plus (Vec3 0 0 0) (vec3_scale (real j) (Vec3 0 2 0))"
      by blast
    then show ?thesis
      unfolding at by (simp add: vec3_plus_def vec3_scale_def mult.commute)
  qed
  moreover have "nat L \<le> length (blocks st)" using st(2) by simp
  ultimately show ?thesis using i d s st(1) by blast
qed

theorem first_segment_along_Y_witness:
  "(1::int) \<le> 2 \<and> (2::int) \<le> 2 ^ 24 \<and> (1::nat) < nat 2 \<and>
   (\<exists>st. segments_loop even [2, 1] (initial_walk 0) = Inr st \<and> blocks st ! 1 = Vec3 0 2 0)"
proof -
  from first_segment_along_Y [of 0 2 even "[1]"]
  obtain st where "segments_loop even [2, 1] (initial_walk 0) = Inr st"
    "\<forall>j < nat 2. blocks st ! j = Vec3 0 (2 * real j) 0"
    by auto
  moreover from this(2) have "blocks st ! 1 = Vec3 0 (2 * real 1) 0" by simp
  ultimately show ?thesis by auto
qed

text \<open>
  C2, as stated, fails: the segment list \<open>[0]\<close> is not empty and has no negative entry, it
  places no cube, and the bounding box keeps its initial corners, with the minimum above the
  maximum.
\<close>

theorem bounding_box_counterexample:
  "initializeShape even [0] 0 =
     Inr (\<lparr>boundingBox = \<lparr>bb_min = Vec3 FLT_MAX FLT_MAX FLT_MAX,
                           bb_max = Vec3 FLT_MIN FLT_MIN FLT_MIN\<rparr>,
           mesh = \<lparr>vertexCount = 0, vertexSize = 20,
                   vertexAttributes = [(3, GL_FLOAT, 0), (2, GL_FLOAT, 12)],
                   vertexData = []\<rparr>\<rparr>, 2) \<and>
   \<not> vec3_le (Vec3 FLT_MAX FLT_MAX FLT_MAX) (Vec3 FLT_MIN FLT_MIN FLT_MIN)"
proof -
  have "segments_loop even [0] (initial_walk 0) =
      Inr \<lparr>blocks = [], center = Vec3 0 0 0, direction = 1, side = 1, generator = 2\<rparr>"
    by (simp add: initial_walk_def segment_body_def segment_step_def place_blocks.simps
        vec3_splat_def switch_direction_def zero_or_one_def)
  then have "initializeShape even [0] 0 =
     Inr (\<lparr>boundingBox = \<lparr>bb_min = Vec3 FLT_MAX FLT_MAX FLT_MAX,
                           bb_max = Vec3 FLT_MIN FLT_MIN FLT_MIN\<rparr>,
           mesh = \<lparr>vertexCount = 0, vertexSize = 20,
                   vertexAttributes = [(3, GL_FLOAT, 0), (2, GL_FLOAT, 12)],
                   vertexData = []\<rparr>\<rparr>, 2)"
    by (simp add: initializeShape_def shape_vertices_def shape_box_def vec3_splat_def)
  moreover have "\<not> FLT_MAX \<le> FLT_MIN"
    by (simp add: FLT_MAX_def FLT_MIN_def)
  ultimately show ?thesis by (simp add: vec3_le_def)
qed

text \<open>
  C2, amended. For a segment list with an entry of at least 1, that is for a shape with at
  least one cube, the minimum corner of the bounding box is below the maximum corner in each
  component (strictly, so the two corners differ).
\<close>

theorem bounding_box_ordered:
  assumes "\<exists>L \<in> set segments. 1 \<le> L"
  shows "\<exists>sh g'. initializeShape coin segments g = Inr (sh, g') \<and>
      vec3_le (bb_min (boundingBox sh)) (bb_max (boundingBox sh)) \<and>
      bb_min (boundingBox sh) \<noteq> bb_max (boundingBox sh) \<and>
      vx (bb_min (boundingBox sh)) < vx (bb_max (boundingBox sh)) \<and>
      vy (bb_min (boundingBox sh)) < vy (bb_max (boundingBox sh)) \<and>
      vz (bb_min (boundingBox sh)) < vz (bb_max (boundingBox sh)) \<and>
      0 < vertexCount (mesh sh)"
proof -
  obtain st where st: "segments_loop coin segments (initial_walk g) = Inr st"
    "length (blocks st) = sum_list (map nat segments)"
    using walk_total by blast
  from assms obtain L where L: "L \<in> set segments" "1 \<le> L" by blast
  then have "nat L \<in> set (map nat segments)" by simp
  then have "nat L \<le> sum_list (map nat segments)" by (simp add: member_le_sum_list)
  moreover have "0 < nat L" using L(2) by simp
  ultimately have "0 < length (blocks st)" unfolding st(2) by linarith
  then have ne: "blocks st \<noteq> []" by simp
  have "blocks st ! 0 \<in> set (blocks st)" using ne by simp
  then have o: "Vec3 0 0 0 \<in> set (blocks st)"
    using first_block_origin [OF st(1) ne] by simp
  define bb where "bb = shape_box (shape_vertices (blocks st))"
  have lo: "vec3_le (bb_min bb) (Vec3 (-1) (-1) (-1))" and hi: "vec3_le (Vec3 1 1 1) (bb_max bb)"
    unfolding bb_def using box_contains_unit_cube [OF o] by blast+
  have x: "vx (bb_min bb) < vx (bb_max bb)" and y: "vy (bb_min bb) < vy (bb_max bb)"
    and z: "vz (bb_min bb) < vz (bb_max bb)"
    using lo hi by (simp_all add: vec3_le_def)
  have "vec3_le (bb_min bb) (bb_max bb)" using x y z by (simp add: vec3_le_def)
  moreover have "bb_min bb \<noteq> bb_max bb" using x by auto
  moreover have "0 < length (shape_vertices (blocks st))"
    using ne by (simp add: length_shape_vertices)
  ultimately show ?thesis
    using x y z by (simp add: initializeShape_eq [OF st(1)] bb_def)
qed

theorem bounding_box_ordered_witness:
  "(\<exists>L \<in> set [3, 3, 2, 3 :: int]. 1 \<le> L) \<and>
   (\<exists>sh g'. initializeShape even [3, 3, 2, 3] 0 = Inr (sh, g') \<and>
      vec3_le (bb_min (boundingBox sh)) (bb_max (boundingBox sh)) \<and>
      bb_min (boundingBox sh) \<noteq> bb_max (boundingBox sh))"
proof -
  have h: "\<exists>L \<in> set [3, 3, 2, 3 :: int]. 1 \<le> L" by simp
  from bounding_box_ordered [OF h, of even 0] h show ?thesis by blast
qed

lemma length_render_shape: "length (render_shape G demo vw vh i sh) = 3"
  by (simp add: render_shape_def Let_def)

lemma render_loop_eq:
  "render_loop G demo vw vh i =
     concat (map (\<lambda>j. render_shape G demo vw vh j (m_shapes demo ! j)) [i..<length (m_shapes demo)])"
proof (induction G demo vw vh i rule: render_loop.induct)
  case (1 G demo vw vh i)
  show ?case
  proof (cases "i < length (m_shapes demo)")
    case True
    then show ?thesis
      using "1.IH" by (subst render_loop.simps) (simp add: upt_conv_Cons)
  next
    case False
    then show ?thesis by (subst render_loop.simps) simp
  qed
qed

lemma nth_concat_triples:
  assumes "\<forall>x \<in> set xs. length (f x) = 3" and "i < length xs" and "k < 3"
  shows "concat (map f xs) ! (3 * i + k) = f (xs ! i) ! k"
  using assms
proof (induction xs arbitrary: i)
  case Nil
  then show ?case by simp
next
  case (Cons x xs)
  show ?case
  proof (cases i)
    case 0
    then show ?thesis using Cons.prems by (simp add: nth_append)
  next
    case (Suc i')
    have "3 * i + k = 3 + (3 * i' + k)" using Suc by simp
    then have "concat (map f (x # xs)) ! (3 * i + k) = concat (map f xs) ! (3 * i' + k)"
      using Cons.prems(1) by (simp add: nth_append)
    also have "\<dots> = f (xs ! i') ! k"
      using Cons.prems Suc by (intro Cons.IH) simp_all
    finally show ?thesis using Suc by simp
  qed
qed

lemma render_loop_nth:
  assumes "i < length (m_shapes demo)" and "k < 3"
  shows "render_loop G demo vw vh 0 ! (3 * i + k) = render_shape G demo vw vh i (m_shapes demo ! i) ! k"
proof -
  have "concat (map (\<lambda>j. render_shape G demo vw vh j (m_shapes demo ! j)) [0..<length (m_shapes demo)])
          ! (3 * i + k) =
        render_shape G demo vw vh ([0..<length (m_shapes demo)] ! i)
          (m_shapes demo ! ([0..<length (m_shapes demo)] ! i)) ! k"
    by (rule nth_concat_triples) (use assms in \<open>simp_all add: length_render_shape\<close>)
  then show ?thesis using assms(1) by (simp add: render_loop_eq)
qed

lemma length_render_loop: "length (render_loop G demo vw vh 0) = 3 * length (m_shapes demo)"
  by (simp add: render_loop_eq length_concat comp_def length_render_shape sum_list_triv)

lemma render_Inr:
  assumes "render G demo = Inr calls"
  shows "\<exists>prog. m_shapeProgram demo = Some prog \<and> row_count (length (m_shapes demo)) \<noteq> 0 \<and>
     calls = [glClearColor 1 1 1 1, glClear_color_depth, glEnable GL_DEPTH_TEST,
              glEnable GL_CULL_FACE, glCullFace GL_BACK, program_bind prog] @
             render_loop G demo (m_canvasWidth demo sdiv 3)
               (to_size_t (m_canvasHeight demo) div row_count (length (m_shapes demo))) 0"
  using assms by (auto simp: render_def Let_def split: option.splits if_splits)

lemma render_nth:
  assumes "render G demo = Inr calls" and "i < length (m_shapes demo)" and "k < 3"
  shows "calls ! (6 + 3 * i + k) =
     render_shape G demo (m_canvasWidth demo sdiv 3)
       (to_size_t (m_canvasHeight demo) div row_count (length (m_shapes demo))) i
       (m_shapes demo ! i) ! k"
proof -
  from render_Inr [OF assms(1)] obtain prog where
    c: "calls = [glClearColor 1 1 1 1, glClear_color_depth, glEnable GL_DEPTH_TEST,
              glEnable GL_CULL_FACE, glCullFace GL_BACK, program_bind prog] @
             render_loop G demo (m_canvasWidth demo sdiv 3)
               (to_size_t (m_canvasHeight demo) div row_count (length (m_shapes demo))) 0"
    by blast
  have "6 + 3 * i + k = 6 + (3 * i + k)" by simp
  then show ?thesis
    unfolding c using render_loop_nth [OF assms(2,3)] by (simp add: nth_append)
qed

lemma row_count_eq:
  assumes "n < 2 ^ 61"
  shows "row_count n = (int n + 2) div 3"
proof -
  have "int n < 2 ^ 61" using assms by (metis of_nat_less_iff of_nat_numeral of_nat_power)
  then have "int n + 3 < 2 ^ 64" by simp
  then have "to_size_t (int n + 3) = int n + 3" by (simp add: to_size_t_def)
  moreover have "to_size_t (int n + 3 - 1) = int n + 2"
    using \<open>int n + 3 < 2 ^ 64\<close> by (simp add: to_size_t_def)
  ultimately show ?thesis by (simp add: row_count_def to_size_t_def)
qed

lemma row_count_0: "row_count 0 = 0"
  by (simp add: row_count_def to_size_t_def)

lemma row_count_ceiling:
  assumes "n < 2 ^ 61"
  shows "row_count n = \<lceil>real n / 3\<rceil>"
proof -
  have "\<lceil>real n / 3\<rceil> = \<lceil>real_of_int (int n) / real_of_int 3\<rceil>" by simp
  also have "\<dots> = - (- int n div 3)" by (rule ceiling_divide_eq_div)
  also have "\<dots> = (int n + 2) div 3" by presburger
  finally show ?thesis using row_count_eq [OF assms] by simp
qed

lemma render_succeeds:
  assumes "m_shapeProgram demo = Some prog" and "m_shapes demo \<noteq> []"
    and "length (m_shapes demo) < 2 ^ 61"
  shows "\<exists>calls. render G demo = Inr calls"
proof -
  have "0 < length (m_shapes demo)" using assms(2) by simp
  then have "row_count (length (m_shapes demo)) \<noteq> 0"
    unfolding row_count_eq [OF assms(3)] by presburger
  then show ?thesis using assms(1) by (simp add: render_def Let_def)
qed

lemma initializeShape_total:
  "\<exists>sh. initializeShape coin segs g = Inr (sh, g + 2 * length segs)"
proof -
  obtain st where "segments_loop coin segs (initial_walk g) = Inr st"
    "generator st = g + 2 * length segs"
    using walk_total by blast
  then show ?thesis by (simp add: initializeShape_eq)
qed

lemma shapes_loop_total:
  "\<exists>shs' g'. shapes_loop coin segs i (shs, g) = Inr (shs', g') \<and>
      length shs' = length shs + nat (6 - i) \<and> take (length shs) shs' = shs"
proof (induction coin segs i "(shs, g)" arbitrary: shs g rule: shapes_loop.induct)
  case (1 coin segs i shs g)
  show ?case
  proof (cases "i < 6")
    case True
    obtain sh where sh: "initializeShape coin segs g = Inr (sh, g + 2 * length segs)"
      using initializeShape_total by blast
    from "1.hyps" [OF True sh refl]
    obtain shs' g' where r: "shapes_loop coin segs (i + 1) (shs @ [sh], g + 2 * length segs) = Inr (shs', g')"
      "length shs' = length (shs @ [sh]) + nat (6 - (i + 1))"
      "take (length (shs @ [sh])) shs' = shs @ [sh]"
      by blast
    have "take (length shs) shs' = take (length shs) (take (length (shs @ [sh])) shs')"
      by (simp add: min_def)
    also have "\<dots> = shs" unfolding r(3) by simp
    finally have "take (length shs) shs' = shs" .
    moreover have "length shs' = length shs + nat (6 - i)" using r(2) True by simp
    ultimately show ?thesis
      using True sh r(1) by (subst shapes_loop.simps) simp
  next
    case False
    then show ?thesis by (subst shapes_loop.simps) simp
  qed
qed

text \<open>
  C1. When both calls of \<open>addShader\<close> succeed and \<open>link\<close> fails, \<open>initializeProgram\<close>
  writes the log line and still returns \<open>true\<close>: \<open>initialize\<close> returns \<open>true\<close> and
  generates the six shapes.
\<close>

theorem initialize_ignores_link_failure:
  "\<exists>r. initialize (drv\<lparr>addShader_ok := \<lambda>stage path. True, link_ok := False\<rparr>) coin g
          (Demo_new canvasWidth canvasHeight) = Inr r \<and>
        returned r = True \<and>
        stderr_lines r = [''Failed to link shader: '' @ log_text drv Link] \<and>
        length (m_shapes (demo_after r)) = 6"
proof -
  obtain shs g' where s: "shapes_loop coin [3, 3, 2, 3] 0 ([], g) = Inr (shs, g')"
    "length shs = length ([] :: Shape list) + nat (6 - 0)"
    using shapes_loop_total by blast
  then show ?thesis
    by (simp add: initialize_def initializeProgram_def Demo_new_def)
qed

lemma initialize_addShader_failure:
  assumes "\<not> addShader_ok drv GL_VERTEX_SHADER ''shaders/shape.vert'' \<or>
           \<not> addShader_ok drv GL_FRAGMENT_SHADER ''shaders/shape.frag''"
  shows "\<exists>r. initialize drv coin g demo = Inr r \<and> returned r = False \<and>
        stderr_lines r \<noteq> [] \<and> m_shapes (demo_after r) = m_shapes demo \<and>
        m_shapeProgram (demo_after r) \<noteq> None \<and> generator_after r = g"
  using assms by (auto simp: initialize_def initializeProgram_def)

text \<open>
  C3. With a shader program and no shape, \<open>render\<close> divides \<open>m_canvasHeight\<close> by a row count
  of 0. That is the state \<open>initialize\<close> leaves when \<open>addShader\<close> fails.
\<close>

theorem render_without_shapes_fails:
  "render G (demo\<lparr>m_shapes := [], m_shapeProgram := Some prog\<rparr>) = Inl DivisionByZero \<and>
   renderAndStep G (demo\<lparr>m_shapes := [], m_shapeProgram := Some prog\<rparr>) dt = Inl DivisionByZero \<and>
   (\<exists>r. initialize (drv\<lparr>addShader_ok := \<lambda>stage path. False\<rparr>) coin g
           (Demo_new canvasWidth canvasHeight) = Inr r \<and>
         returned r = False \<and> m_shapes (demo_after r) = [] \<and>
         render G (demo_after r) = Inl DivisionByZero)"
proof -
  have a: "render G (d\<lparr>m_shapes := [], m_shapeProgram := Some p\<rparr>) = Inl DivisionByZero" for d p
    by (simp add: render_def row_count_0)
  have "initialize (drv\<lparr>addShader_ok := \<lambda>stage path. False\<rparr>) coin g
           (Demo_new canvasWidth canvasHeight) =
        Inr \<lparr>returned = False,
             demo_after = (Demo_new canvasWidth canvasHeight)
               \<lparr>m_shapes := [], m_shapeProgram := Some \<lparr>shaders = [], linked = False\<rparr>\<rparr>,
             stderr_lines = [''Failed to add vertex shader shaders/shape.vert: '' @
               log_text drv (AddShader GL_VERTEX_SHADER ''shaders/shape.vert'')],
             generator_after = g\<rparr>"
    by (simp add: initialize_def initializeProgram_def Demo_new_def)
  then show ?thesis
    using a by (simp add: renderAndStep_def)
qed

lemma to_size_t_id: "0 \<le> v \<Longrightarrow> v < 2 ^ 64 \<Longrightarrow> to_size_t v = v"
  by (simp add: to_size_t_def)

lemma to_GLint_id: "0 \<le> v \<Longrightarrow> v < 2 ^ 31 \<Longrightarrow> to_GLint v = v"
  by (simp add: to_GLint_def)

lemma tile_origin_bound:
  fixes H rows q :: int
  assumes "0 \<le> H" and "0 \<le> q" and "q < rows"
  shows "0 \<le> q * (H div rows)" and "q * (H div rows) \<le> H"
proof -
  have r: "0 < rows" using assms by simp
  then have d: "0 \<le> H div rows" using assms(1) by (simp add: pos_imp_zdiv_nonneg_iff)
  then show "0 \<le> q * (H div rows)" using assms(2) by simp
  have "q * (H div rows) \<le> rows * (H div rows)"
    using assms(3) d by (simp add: mult_right_mono)
  also have "\<dots> \<le> H"
  proof -
    have "rows * (H div rows) + H mod rows = H" by simp
    moreover have "0 \<le> H mod rows" using r by simp
    ultimately show ?thesis by linarith
  qed
  finally show "q * (H div rows) \<le> H" .
qed

lemma viewport_call:
  assumes r: "render G demo = Inr calls"
    and W: "0 \<le> m_canvasWidth demo" "m_canvasWidth demo < 2 ^ 31"
    and H: "0 \<le> m_canvasHeight demo" "m_canvasHeight demo < 2 ^ 31"
    and n: "length (m_shapes demo) < 2 ^ 61"
    and i: "i < length (m_shapes demo)"
  shows "calls ! (6 + 3 * i) =
     glViewport (int (i mod 3) * (m_canvasWidth demo div 3))
       (int (i div 3) * (m_canvasHeight demo div ((int (length (m_shapes demo)) + 2) div 3)))
       (m_canvasWidth demo div 3)
       (m_canvasHeight demo div ((int (length (m_shapes demo)) + 2) div 3))"
proof -
  define rows where "rows = (int (length (m_shapes demo)) + 2) div 3"
  define vw where "vw = m_canvasWidth demo div 3"
  define vh where "vh = m_canvasHeight demo div rows"
  have rc: "row_count (length (m_shapes demo)) = rows"
    unfolding rows_def by (rule row_count_eq [OF n])
  have sd: "m_canvasWidth demo sdiv 3 = vw"
    using W(1) by (simp add: signed_divide_int_def vw_def sgn_if)
  have hs: "to_size_t (m_canvasHeight demo) = m_canvasHeight demo"
    using H by (simp add: to_size_t_id)
  have q: "int i div 3 < rows" "0 \<le> int i div 3"
    using i unfolding rows_def by simp_all
  have rows_pos: "0 < rows" using q by simp
  have vw0: "0 \<le> vw" "vw < 2 ^ 31" "3 * vw \<le> m_canvasWidth demo"
    using W unfolding vw_def by simp_all
  have vh0: "0 \<le> vh"
    using H(1) rows_pos unfolding vh_def by (simp add: pos_imp_zdiv_nonneg_iff)
  have "rows * vh + m_canvasHeight demo mod rows = m_canvasHeight demo"
    unfolding vh_def by simp
  moreover have "0 \<le> m_canvasHeight demo mod rows" using rows_pos by simp
  moreover have "1 * vh \<le> rows * vh"
    using rows_pos vh0 by (intro mult_right_mono) simp_all
  ultimately have vh1: "vh \<le> m_canvasHeight demo" by linarith
  have c3: "to_size_t 3 = 3" by (simp add: to_size_t_def)
  have m: "0 \<le> int i mod 3" "int i mod 3 \<le> 2" by simp_all
  have x0: "0 \<le> (int i mod 3) * vw" using m vw0 by simp
  have "(int i mod 3) * vw \<le> 2 * vw" using m(2) vw0(1) by (simp add: mult_right_mono)
  then have x1: "(int i mod 3) * vw < 2 ^ 31" using vw0 W(2) by simp
  have y0: "0 \<le> (int i div 3) * vh" and y1: "(int i div 3) * vh \<le> m_canvasHeight demo"
    using tile_origin_bound [OF H(1) q(2) q(1)] unfolding vh_def by simp_all
  have y2: "(int i div 3) * vh < 2 ^ 31" using y1 H(2) by simp
  have X: "to_GLint (to_size_t ((int i mod to_size_t 3) * to_size_t vw)) = (int i mod 3) * vw"
    using x0 x1 vw0 by (simp add: c3 to_size_t_id to_GLint_id)
  have Y: "to_GLint (to_size_t ((int i div to_size_t 3) * vh)) = (int i div 3) * vh"
    using y0 y2 by (simp add: c3 to_size_t_id to_GLint_id)
  have V: "to_GLint vh = vh" using vh0 vh1 H(2) by (simp add: to_GLint_id)
  have "calls ! (6 + 3 * i + 0) = render_shape G demo vw vh i (m_shapes demo ! i) ! 0"
    using render_nth [OF r i, of 0] by (simp add: rc sd hs vh_def)
  also have "\<dots> = glViewport ((int i mod 3) * vw) ((int i div 3) * vh) vw vh"
    by (simp add: render_shape_def Let_def X Y V)
  finally show ?thesis
    by (simp add: vw_def vh_def rows_def zmod_int zdiv_int)
qed

text \<open>
  C8. For a canvas whose width and height are not negative, \<open>render\<close> sets for shape \<open>i\<close>
  the viewport of origin \<open>(i mod 3) * viewportWidth\<close>, \<open>(i div 3) * viewportHeight\<close>, where
  \<open>viewportWidth\<close> is the canvas width divided by 3 and \<open>viewportHeight\<close> the canvas height
  divided by the row count, the ceiling of the number of shapes over 3. With six shapes there
  are two rows and the shapes fill the cells (0,0), (1,0), (2,0), (0,1), (1,1), (2,1).
  The viewport call of shape \<open>i\<close> is call number \<open>6 + 3 i\<close> of the frame.
\<close>

theorem viewport_layout:
  assumes "render G demo = Inr calls"
    and "0 \<le> m_canvasWidth demo" and "m_canvasWidth demo < 2 ^ 31"
    and "0 \<le> m_canvasHeight demo" and "m_canvasHeight demo < 2 ^ 31"
    and "length (m_shapes demo) < 2 ^ 61"
  shows
    "let surfaceWidth = m_canvasWidth demo; surfaceHeight = m_canvasHeight demo;
         shapeCount = length (m_shapes demo);
         rowCount = \<lceil>real shapeCount / 3\<rceil>;
         viewportWidth = surfaceWidth div 3;
         viewportHeight = surfaceHeight div rowCount
     in row_count shapeCount = rowCount \<and>
        (\<forall>i < shapeCount.
           calls ! (6 + 3 * i) =
             glViewport (int (i mod 3) * viewportWidth) (int (i div 3) * viewportHeight)
               viewportWidth viewportHeight) \<and>
        (shapeCount = 6 \<longrightarrow>
           rowCount = 2 \<and> viewportHeight = surfaceHeight div 2 \<and>
           map (\<lambda>i. calls ! (6 + 3 * i)) [0, 1, 2, 3, 4, 5] =
             [glViewport 0 0 viewportWidth viewportHeight,
              glViewport viewportWidth 0 viewportWidth viewportHeight,
              glViewport (2 * viewportWidth) 0 viewportWidth viewportHeight,
              glViewport 0 viewportHeight viewportWidth viewportHeight,
              glViewport viewportWidth viewportHeight viewportWidth viewportHeight,
              glViewport (2 * viewportWidth) viewportHeight viewportWidth viewportHeight])"
proof -
  define n where "n = length (m_shapes demo)"
  have n: "n < 2 ^ 61" using assms(6) by (simp add: n_def)
  have c: "(int n + 2) div 3 = \<lceil>real n / 3\<rceil>"
    using row_count_ceiling [OF n] row_count_eq [OF n] by simp
  have rc: "row_count n = \<lceil>real n / 3\<rceil>"
    by (rule row_count_ceiling [OF n])
  have v: "calls ! (6 + 3 * i) =
     glViewport (int (i mod 3) * (m_canvasWidth demo div 3))
       (int (i div 3) * (m_canvasHeight demo div \<lceil>real n / 3\<rceil>))
       (m_canvasWidth demo div 3) (m_canvasHeight demo div \<lceil>real n / 3\<rceil>)"
    if "i < n" for i
  proof -
    have "i < length (m_shapes demo)" using that by (simp add: n_def)
    from viewport_call [OF assms this] show ?thesis
      unfolding n_def [symmetric] c .
  qed
  have six: "\<lceil>real n / 3\<rceil> = 2" if "n = 6"
    unfolding c [symmetric] using that by simp
  have cells: "map (\<lambda>i. calls ! (6 + 3 * i)) [0, 1, 2, 3, 4, 5] =
             [glViewport 0 0 (m_canvasWidth demo div 3) (m_canvasHeight demo div 2),
              glViewport (m_canvasWidth demo div 3) 0 (m_canvasWidth demo div 3) (m_canvasHeight demo div 2),
              glViewport (2 * (m_canvasWidth demo div 3)) 0 (m_canvasWidth demo div 3) (m_canvasHeight demo div 2),
              glViewport 0 (m_canvasHeight demo div 2) (m_canvasWidth demo div 3) (m_canvasHeight demo div 2),
              glViewport (m_canvasWidth demo div 3) (m_canvasHeight demo div 2) (m_canvasWidth demo div 3) (m_canvasHeight demo div 2),
              glViewport (2 * (m_canvasWidth demo div 3)) (m_canvasHeight demo div 2) (m_canvasWidth demo div 3) (m_canvasHeight demo div 2)]"
    if "n = 6"
  proof -
    have lt: "0 < n" "1 < n" "2 < n" "3 < n" "4 < n" "5 < n" using that by simp_all
    show ?thesis
      using v [OF lt(1)] v [OF lt(2)] v [OF lt(3)] v [OF lt(4)] v [OF lt(5)] v [OF lt(6)]
      unfolding six [OF that] by simp
  qed
  show ?thesis
    unfolding Let_def n_def [symmetric]
    using rc v six cells by simp
qed

lemma sample_demo_renders:
  "\<exists>calls. render symbolic_glm sample_demo = Inr calls"
  by (rule render_succeeds [of _ "\<lparr>shaders = [], linked = True\<rparr>"])
    (simp_all add: sample_demo_def)

theorem viewport_layout_witness:
  "\<exists>calls. render symbolic_glm sample_demo = Inr calls \<and>
     0 \<le> m_canvasWidth sample_demo \<and> m_canvasWidth sample_demo < 2 ^ 31 \<and>
     0 \<le> m_canvasHeight sample_demo \<and> m_canvasHeight sample_demo < 2 ^ 31 \<and>
     length (m_shapes sample_demo) < 2 ^ 61 \<and> length (m_shapes sample_demo) = 6 \<and>
     (4::nat) < length (m_shapes sample_demo) \<and>
     calls ! 18 = glViewport 213 240 213 240 \<and>
     calls ! 12 = glViewport 426 0 213 240"
proof -
  obtain calls where r: "render symbolic_glm sample_demo = Inr calls"
    using sample_demo_renders by blast
  have h: "0 \<le> m_canvasWidth sample_demo" "m_canvasWidth sample_demo < 2 ^ 31"
    "0 \<le> m_canvasHeight sample_demo" "m_canvasHeight sample_demo < 2 ^ 31"
    "length (m_shapes sample_demo) < 2 ^ 61"
    by (simp_all add: sample_demo_def)
  have l: "length (m_shapes sample_demo) = 6" by (simp add: sample_demo_def)
  have "calls ! (6 + 3 * 4) = glViewport 213 240 213 240 \<and> calls ! (6 + 3 * 2) = glViewport 426 0 213 240"
    using viewport_layout [OF r h] unfolding Let_def l by (simp add: sample_demo_def)
  then show ?thesis using r h l by simp
qed

lemma uniform_call:
  assumes "render G demo = Inr calls" and "i < length (m_shapes demo)"
  shows "calls ! (6 + 3 * i + 1) =
     program_setUniform ''mvp''
       (mat_mul G
          (mat_mul G
             (perspective G (radians G 45)
                (float_div (real_of_int (m_canvasWidth demo sdiv 3))
                   (real_of_int (to_size_t (m_canvasHeight demo) div
                      row_count (length (m_shapes demo)))))
                0.1 100)
             (lookAt G (Vec3 0 0 (-18)) (Vec3 0 0 0) (Vec3 0 1 0)))
          (mat_mul G
             (rotate G (mat4 G 1) (- 1.5 * m_curTime demo) (normalize G (Vec3 1 1 1)))
             (translate G (mat4 G 1)
                (vec3_neg (vec3_scale 0.5
                   (vec3_add (bb_min (boundingBox (m_shapes demo ! i)))
                             (bb_max (boundingBox (m_shapes demo ! i)))))))))"
  using render_nth [OF assms, of 1] by (simp add: render_shape_def Let_def)




text \<open>
  C7, as stated, fails: with an elapsed time of \<open>2 ^ 24\<close> and \<open>dt = 1\<close> the sum
  \<open>2 ^ 24 + 1\<close> is not a \<open>float\<close>, and \<open>m_curTime += dt\<close> leaves the elapsed time at
  \<open>2 ^ 24\<close>: \<open>dt\<close> is not added exactly.
\<close>

theorem renderAndStep_rounds_counterexample:
  "map_sum id (m_curTime \<circ> snd)
     (renderAndStep symbolic_glm (sample_demo\<lparr>m_curTime := 16777216\<rparr>) 1) = Inr 16777216 \<and>
   (16777216 :: real) + 1 \<noteq> 16777216"
proof -
  obtain calls where r: "render symbolic_glm (sample_demo\<lparr>m_curTime := 16777216\<rparr>) = Inr calls"
    using render_succeeds [of "sample_demo\<lparr>m_curTime := 16777216\<rparr>"
        "\<lparr>shaders = [], linked = True\<rparr>" symbolic_glm]
    by (auto simp: sample_demo_def)
  have "float_add 16777216 1 = Some 16777216"
    by (simp add: float_add_def round_float_2p24_1 FLT_MAX_def)
  then show ?thesis
    by (simp add: renderAndStep_def r)
qed

text \<open>
  C7, amended. \<open>renderAndStep\<close> makes the calls of \<open>render\<close> in the state before the call,
  so that the rotation of every shape uses the elapsed time before the call, and then sets
  \<open>m_curTime\<close> to the \<open>float\<close> sum of \<open>m_curTime\<close> and \<open>dt\<close>, that is to their sum rounded
  to binary32, provided it is finite; this is \<open>m_curTime + dt\<close> exactly whenever that number
  is a \<open>float\<close>. Nothing else changes. With \<open>dt = 0\<close> the state is unchanged and the next
  call makes the same calls. Right after \<open>initialize\<close> on a new demo the elapsed time is 0.
\<close>

theorem renderAndStep_renders_then_advances:
  assumes "m_shapeProgram demo = Some prog" and "m_shapes demo \<noteq> []"
    and "length (m_shapes demo) < 2 ^ 61"
    and "\<bar>round_float (m_curTime demo + dt)\<bar> \<le> FLT_MAX"
  shows "\<exists>calls demo'.
      renderAndStep G demo dt = Inr (calls, demo') \<and>
      render G demo = Inr calls \<and>
      (\<forall>i < length (m_shapes demo). \<exists>projection_view translation.
         calls ! (6 + 3 * i + 1) =
           program_setUniform ''mvp''
             (mat_mul G projection_view
                (mat_mul G
                   (rotate G (mat4 G 1) (- 1.5 * m_curTime demo) (normalize G (Vec3 1 1 1)))
                   translation))) \<and>
      demo' = demo\<lparr>m_curTime := round_float (m_curTime demo + dt)\<rparr> \<and>
      m_curTime demo' = round_float (m_curTime demo + dt) \<and>
      (round_float (m_curTime demo + dt) = m_curTime demo + dt \<longrightarrow>
         m_curTime demo' = m_curTime demo + dt) \<and>
      m_shapes demo' = m_shapes demo \<and>
      m_canvasWidth demo' = m_canvasWidth demo \<and>
      m_canvasHeight demo' = m_canvasHeight demo \<and>
      m_shapeProgram demo' = m_shapeProgram demo \<and>
      (dt = 0 \<and> round_float (m_curTime demo) = m_curTime demo \<longrightarrow>
         demo' = demo \<and> renderAndStep G demo' dt = Inr (calls, demo')) \<and>
      (\<forall>drv coin g canvasWidth canvasHeight r.
         initialize drv coin g (Demo_new canvasWidth canvasHeight) = Inr r \<and> demo = demo_after r
           \<longrightarrow> m_curTime demo = 0 \<and> round_float (m_curTime demo) = m_curTime demo)"
proof -
  obtain calls where r: "render G demo = Inr calls"
    using render_succeeds [OF assms(1-3)] by blast
  define demo' where "demo' = demo\<lparr>m_curTime := round_float (m_curTime demo + dt)\<rparr>"
  have u: "\<exists>projection_view translation.
         calls ! (6 + 3 * i + 1) =
           program_setUniform ''mvp''
             (mat_mul G projection_view
                (mat_mul G
                   (rotate G (mat4 G 1) (- 1.5 * m_curTime demo) (normalize G (Vec3 1 1 1)))
                   translation))"
    if "i < length (m_shapes demo)" for i
    using uniform_call [OF r that] by blast
  have first: "m_curTime (demo_after r) = 0"
    if "initialize drv coin g (Demo_new canvasWidth canvasHeight) = Inr r"
    for drv coin g canvasWidth canvasHeight r
    using that
    by (auto simp: initialize_def Demo_new_def Let_def split: prod.splits if_splits sum.splits)
  have fin: "\<forall>drv coin g canvasWidth canvasHeight r.
         initialize drv coin g (Demo_new canvasWidth canvasHeight) = Inr r \<and> demo = demo_after r
           \<longrightarrow> m_curTime demo = 0 \<and> round_float (m_curTime demo) = m_curTime demo"
    using first by auto
  have add: "float_add (m_curTime demo) dt = Some (round_float (m_curTime demo + dt))"
    using assms(4) by (simp add: float_add_def)
  have step: "renderAndStep G demo dt = Inr (calls, demo')"
    using r add by (simp add: renderAndStep_def demo'_def)
  have again: "dt = 0 \<and> round_float (m_curTime demo) = m_curTime demo \<longrightarrow>
      demo' = demo \<and> renderAndStep G demo' dt = Inr (calls, demo')"
  proof
    assume a: "dt = 0 \<and> round_float (m_curTime demo) = m_curTime demo"
    then have "demo' = demo" by (simp add: demo'_def)
    then show "demo' = demo \<and> renderAndStep G demo' dt = Inr (calls, demo')"
      using step by simp
  qed
  show ?thesis
    apply (rule exI [of _ calls])
    apply (rule exI [of _ demo'])
    apply (intro conjI)
    subgoal by (rule step)
    subgoal by (rule r)
    subgoal using u by blast
    subgoal by (rule demo'_def)
    subgoal by (simp add: demo'_def)
    subgoal by (simp add: demo'_def)
    subgoal by (simp add: demo'_def)
    subgoal by (simp add: demo'_def)
    subgoal by (simp add: demo'_def)
    subgoal by (simp add: demo'_def)
    subgoal by (rule again)
    subgoal by (rule fin)
    done
qed

theorem renderAndStep_renders_then_advances_witness:
  "m_shapeProgram sample_demo = Some \<lparr>shaders = [], linked = True\<rparr> \<and>
   m_shapes sample_demo \<noteq> [] \<and> length (m_shapes sample_demo) < 2 ^ 61 \<and>
   \<bar>round_float (m_curTime sample_demo + 1 / 2)\<bar> \<le> FLT_MAX \<and>
   \<bar>round_float (m_curTime sample_demo + 0)\<bar> \<le> FLT_MAX \<and>
   round_float (m_curTime sample_demo) = m_curTime sample_demo \<and>
   (\<exists>calls. render symbolic_glm sample_demo = Inr calls \<and>
      renderAndStep symbolic_glm sample_demo (1 / 2) =
        Inr (calls, sample_demo\<lparr>m_curTime := 5 / 2\<rparr>) \<and>
      renderAndStep symbolic_glm sample_demo 0 = Inr (calls, sample_demo))"
proof -
  have h: "m_shapeProgram sample_demo = Some \<lparr>shaders = [], linked = True\<rparr>"
    "m_shapes sample_demo \<noteq> []" "length (m_shapes sample_demo) < 2 ^ 61"
    by (simp_all add: sample_demo_def)
  have t: "round_float (m_curTime sample_demo + 1 / 2) = 5 / 2"
    "round_float (m_curTime sample_demo + 0) = 2" "round_float (m_curTime sample_demo) = 2"
    "m_curTime sample_demo = 2"
    by (simp_all add: sample_demo_def round_float_5_2)
  have f: "\<bar>round_float (m_curTime sample_demo + 1 / 2)\<bar> \<le> FLT_MAX"
    "\<bar>round_float (m_curTime sample_demo + 0)\<bar> \<le> FLT_MAX"
    by (simp_all add: sample_demo_def round_float_5_2 FLT_MAX_def)
  from renderAndStep_renders_then_advances [OF h f(1), of symbolic_glm]
  obtain calls where a: "render symbolic_glm sample_demo = Inr calls"
    "renderAndStep symbolic_glm sample_demo (1 / 2) =
       Inr (calls, sample_demo\<lparr>m_curTime := round_float (m_curTime sample_demo + 1 / 2)\<rparr>)"
    by blast
  from renderAndStep_renders_then_advances [OF h f(2), of symbolic_glm]
  obtain calls0 where b: "render symbolic_glm sample_demo = Inr calls0"
    "renderAndStep symbolic_glm sample_demo 0 = Inr (calls0, sample_demo)"
    using t(3,4) by auto
  from a(1) b(1) have "calls0 = calls" by simp
  then show ?thesis using h f a b t by simp
qed

end
